theory Spec2Isabelle
  imports Complex_Main "HOL-Library.Sublist" "HOL-Library.Char_ord" "HOL-Library.List_Lexorder"
begin

chapter \<open>moka: test-outcome tree and coverage tree\<close>

text \<open>
  A shallow embedding of the tree engine of moka (TypeScript): the outcome tree of
  \<^verbatim>\<open>testsTree.ts\<close> (\<^verbatim>\<open>buildTestsTree\<close>, \<^verbatim>\<open>aggregate\<close>, \<^verbatim>\<open>renderPkg\<close>), the coverage tree
  of \<^verbatim>\<open>coverage.ts\<close> (\<^verbatim>\<open>pctInt\<close>, \<^verbatim>\<open>compressLines\<close>, \<^verbatim>\<open>buildCoverageTreeFromJaCoCo\<close>,
  \<^verbatim>\<open>aggregateCoverage\<close>) and the exit codes of the two commands \<^verbatim>\<open>cmdCoverage\<close> and
  \<^verbatim>\<open>cmdTest\<close>.

  Conventions of the embedding.
  \<^item> A JavaScript \<^verbatim>\<open>number\<close> that the code only counts, adds or compares is an \<^typ>\<open>int\<close>
    (counts and line numbers are integers below \<open>2\<^sup>5\<^sup>3\<close>, where double arithmetic is
    exact). The quotient and the product inside a percentage and a duration are
    doubles, rounded as IEEE-754 rounds them. \<^verbatim>\<open>NaN\<close> is a missing value; the infinities
    are outside the embedding.
  \<^item> A \<^verbatim>\<open>Map\<close> is an association list in insertion order, as \<^verbatim>\<open>Map\<close> iterates.
  \<^item> A function that mutates a node in place returns the updated node; a function that
    returns a reference which the caller then mutates (\<^verbatim>\<open>ensurePackage\<close>,
    \<^verbatim>\<open>ensureClass\<close>) takes that mutation as a function and applies it to the node reached.
  \<^item> The XML decoder (\<^verbatim>\<open>fast-xml-parser\<close>) is outside the embedding: the builders take the
    decoded records. Text is a list of bytes; the box-drawing glyphs and icons are
    their UTF-8 bytes.
\<close>

section \<open>Text and numbers\<close>

definition digit_char :: "nat \<Rightarrow> char" where
  "digit_char d = ''0123456789'' ! d"

text \<open>The decimal digits of a natural number, most significant first.\<close>

fun nat_digits :: "nat \<Rightarrow> string" where
  "nat_digits n =
     (if n < 10 then [digit_char n]
      else nat_digits (n div 10) @ [digit_char (n mod 10)])"

declare nat_digits.simps [simp del]

text \<open>The template literal \<^verbatim>\<open>`${n}`\<close> of an integer \<open>n\<close>.\<close>

definition num_str :: "int \<Rightarrow> string" where
  "num_str n = (if n < 0 then ''-'' @ nat_digits (nat (- n)) else nat_digits (nat n))"

text \<open>\<^verbatim>\<open>Array.prototype.join(sep)\<close>.\<close>

fun join_with :: "string \<Rightarrow> string list \<Rightarrow> string" where
  "join_with sep [] = []"
| "join_with sep [x] = x"
| "join_with sep (x # y # ys) = x @ sep @ join_with sep (y # ys)"

text \<open>
  \<^verbatim>\<open>String.prototype.split(d)\<close> for a one-character separator: the pieces between the
  separators, empty pieces kept, and one empty piece for the empty string.
\<close>

fun split_on :: "char \<Rightarrow> string \<Rightarrow> string list" where
  "split_on d [] = [[]]"
| "split_on d (c # cs) =
     (if c = d then [] # split_on d cs
      else (case split_on d cs of
              [] \<Rightarrow> [[c]]
            | w # ws \<Rightarrow> (c # w) # ws))"

subsection \<open>Double-precision arithmetic\<close>

text \<open>
  A finite double is an integer times a power of two: the pair \<open>(m, e)\<close> stands for
  \<open>m \<cdot> 2\<^sup>e\<close>. Division and multiplication give the double nearest to the exact
  result, a tie going to the even mantissa of 53 bits (IEEE-754 binary64,
  round-to-nearest-even). Overflow to infinity and the subnormal range are not
  modelled: the values here are percentages and durations.
\<close>

type_synonym double = "int \<times> int"

definition dval :: "double \<Rightarrow> rat" where
  "dval x = of_int (fst x) * 2 powi (snd x)"

text \<open>The number of binary digits of a natural number.\<close>

fun bit_length :: "nat \<Rightarrow> nat" where
  "bit_length n = (if n = 0 then 0 else Suc (bit_length (n div 2)))"

declare bit_length.simps [simp del]

text \<open>The integer nearest to \<open>num / den\<close> for \<open>den > 0\<close>, a tie going to the even one.\<close>

definition round_half_even :: "int \<Rightarrow> int \<Rightarrow> int" where
  "round_half_even num den =
     (let q = num div den; r = num mod den
      in if 2 * r < den then q
         else if den < 2 * r then q + 1
         else if even q then q else q + 1)"

text \<open>The exponent \<open>e\<close> with \<open>2\<^sup>e \<le> num / den < 2\<^sup>e\<^sup>+\<^sup>1\<close>, for \<open>num > 0\<close> and \<open>den > 0\<close>.\<close>

definition binade :: "int \<Rightarrow> int \<Rightarrow> int" where
  "binade num den =
     (let d = int (bit_length (nat num)) - int (bit_length (nat den))
      in if (if 0 \<le> d then den * 2 ^ nat d \<le> num else den \<le> num * 2 ^ nat (- d))
         then d else d - 1)"

text \<open>The double nearest to \<open>num / den\<close>, for \<open>num > 0\<close> and \<open>den > 0\<close>.\<close>

definition nearest_pos :: "int \<Rightarrow> int \<Rightarrow> double" where
  "nearest_pos num den =
     (let k = binade num den - 52
      in if 0 \<le> k then (round_half_even num (den * 2 ^ nat k), k)
         else (round_half_even (num * 2 ^ nat (- k)) den, k))"

text \<open>The double nearest to \<open>num / den\<close>, for \<open>den > 0\<close>.\<close>

definition nearest_double :: "int \<Rightarrow> int \<Rightarrow> double" where
  "nearest_double num den =
     (if num = 0 then (0, 0)
      else if num < 0 then (case nearest_pos (- num) den of (m, k) \<Rightarrow> (- m, k))
      else nearest_pos num den)"

text \<open>The product \<^verbatim>\<open>x * n\<close> of a double and an integer constant.\<close>

definition double_times :: "double \<Rightarrow> int \<Rightarrow> double" where
  "double_times x n =
     (case x of (m, e) \<Rightarrow>
        if 0 \<le> e then nearest_double (m * n * 2 ^ nat e) 1
        else nearest_double (m * n) (2 ^ nat (- e)))"

text \<open>\<^verbatim>\<open>Math.round\<close>: the nearest integer, a tie going up.\<close>

definition js_round :: "double \<Rightarrow> int" where
  "js_round x =
     (case x of (m, e) \<Rightarrow>
        if 0 \<le> e then m * 2 ^ nat e
        else (2 * m + 2 ^ nat (- e)) div 2 ^ (nat (- e) + 1))"

text \<open>\<^verbatim>\<open>a ?? b\<close> on an optional number.\<close>

definition nullish :: "'a option \<Rightarrow> 'a \<Rightarrow> 'a" where
  "nullish v d = (case v of None \<Rightarrow> d | Some x \<Rightarrow> x)"

text \<open>
  \<^verbatim>\<open>Array.prototype.sort(cmp)\<close>, a stable sort: an element goes before the first element
  of the sorted rest that it does not compare greater than. The comparator is a
  parameter; for names it is \<^verbatim>\<open>String.prototype.localeCompare\<close>, whose collation
  belongs to the runtime and is modelled by \<open>locale_compare\<close> below.
\<close>

fun insert_cmp :: "('a \<Rightarrow> 'a \<Rightarrow> int) \<Rightarrow> 'a \<Rightarrow> 'a list \<Rightarrow> 'a list" where
  "insert_cmp cmp x [] = [x]"
| "insert_cmp cmp x (y # ys) =
     (if cmp x y \<le> 0 then x # y # ys else y # insert_cmp cmp x ys)"

definition js_sort :: "('a \<Rightarrow> 'a \<Rightarrow> int) \<Rightarrow> 'a list \<Rightarrow> 'a list" where
  "js_sort cmp xs = foldr (insert_cmp cmp) xs []"

text \<open>
  A comparator is consistent when it orders any two elements one way or the other and
  is transitive; \<^verbatim>\<open>sort\<close> promises a sorted result only for such comparators.
\<close>

definition consistent_cmp :: "('a \<Rightarrow> 'a \<Rightarrow> int) \<Rightarrow> bool" where
  "consistent_cmp cmp \<longleftrightarrow>
     (\<forall>a b. cmp a b \<le> 0 \<or> cmp b a \<le> 0) \<and>
     (\<forall>a b c. cmp a b \<le> 0 \<longrightarrow> cmp b c \<le> 0 \<longrightarrow> cmp a c \<le> 0)"

text \<open>Comparison of two names by their character codes, position by position.\<close>

definition code_unit_compare :: "string \<Rightarrow> string \<Rightarrow> int" where
  "code_unit_compare a b = (if a < b then - 1 else if a = b then 0 else 1)"

text \<open>
  \<^verbatim>\<open>a.localeCompare(b)\<close> with no locale argument compares by the collation of the default
  locale, which is not the order of the character codes. \<open>locale_compare\<close> is that
  collation on names of unaccented Latin letters and digits: the names are compared
  letter by letter without regard to case, a digit before a letter; names that differ
  only in case are then ordered by the first letter where the case differs, the lower
  case letter first. So \<^verbatim>\<open>"a".localeCompare("B")\<close> is negative and
  \<^verbatim>\<open>"a".localeCompare("A")\<close> is negative, where the character codes order \<open>B\<close> and \<open>A\<close>
  before \<open>a\<close>.
\<close>

definition is_upper :: "char \<Rightarrow> bool" where
  "is_upper c \<longleftrightarrow> 65 \<le> (of_char c :: nat) \<and> (of_char c :: nat) \<le> 90"

text \<open>The character code of a letter without its case: that of the lower case letter.\<close>

definition to_lower :: "char \<Rightarrow> nat" where
  "to_lower c = (if is_upper c then of_char c + 32 else of_char c)"

definition locale_compare :: "string \<Rightarrow> string \<Rightarrow> int" where
  "locale_compare a b =
     (if map to_lower a < map to_lower b then - 1
      else if map to_lower b < map to_lower a then 1
      else if map is_upper a < map is_upper b then - 1
      else if map is_upper b < map is_upper a then 1
      else 0)"

section \<open>The coverage tree (\<^verbatim>\<open>coverage.ts\<close>)\<close>

subsection \<open>Percentages and line ranges\<close>

definition pctInt :: "int \<Rightarrow> int \<Rightarrow> int" where
  "pctInt covered missed =
     (let total = covered + missed
      in if total = 0 then 0
         else js_round (double_times (nearest_double covered total) 100))"

text \<open>One token of \<^verbatim>\<open>compressLines\<close>: \<^verbatim>\<open>s === e ? `${s}` : `${s}-${e}`\<close>.\<close>

definition range_token :: "int \<Rightarrow> int \<Rightarrow> string" where
  "range_token s e = (if s = e then num_str s else num_str s @ ''-'' @ num_str e)"

text \<open>
  The loop of \<^verbatim>\<open>compressLines\<close>: \<open>s\<close> and \<open>e\<close> are the ends of the run being read,
  \<open>out\<close> the tokens pushed so far, the list the lines still to read.
\<close>

fun compress_loop :: "int \<Rightarrow> int \<Rightarrow> string list \<Rightarrow> int list \<Rightarrow> string list" where
  "compress_loop s e out [] = out @ [range_token s e]"
| "compress_loop s e out (v # vs) =
     (if v = e + 1 then compress_loop s v out vs
      else compress_loop v v (out @ [range_token s e]) vs)"

definition compressLines :: "int list \<Rightarrow> string" where
  "compressLines lines =
     (case lines of
        [] \<Rightarrow> []
      | l0 # rest \<Rightarrow> join_with '','' (compress_loop l0 l0 [] rest))"

text \<open>
  The specification of the range compressor, in its own words: the tokens are the
  maximal runs of consecutive integers. A list of runs \<open>(start, end)\<close> decomposes
  \<open>xs\<close> when every run is non-empty, the runs spelled out one after the other give
  \<open>xs\<close>, and no run can be extended by the one that follows it.
\<close>

fun runs_maximal :: "(int \<times> int) list \<Rightarrow> bool" where
  "runs_maximal (r # r' # rs) = (fst r' \<noteq> snd r + 1 \<and> runs_maximal (r' # rs))"
| "runs_maximal rs = True"

definition run_decomposition :: "int list \<Rightarrow> (int \<times> int) list \<Rightarrow> bool" where
  "run_decomposition xs rs \<longleftrightarrow>
     list_all (\<lambda>r. fst r \<le> snd r) rs \<and>
     concat (map (\<lambda>r. [fst r..snd r]) rs) = xs \<and>
     runs_maximal rs"

definition render_runs :: "(int \<times> int) list \<Rightarrow> string" where
  "render_runs rs = join_with '','' (map (\<lambda>r. range_token (fst r) (snd r)) rs)"

subsection \<open>Nodes and leaves\<close>

record SourceFile =
  sf_name :: string
  sf_linesCovered :: int
  sf_linesMissed :: int
  sf_funcsCovered :: int
  sf_funcsMissed :: int
  sf_uncoveredLines :: "int option list"

datatype PackageNode = PackageNode
  (cov_name: string)
  (cov_fullName: string)
  (cov_sourcefile: "SourceFile list")
  (cov_children: "(string \<times> PackageNode) list")
  (cov_linesCovered: "int option")
  (cov_linesMissed: "int option")
  (cov_funcsCovered: "int option")
  (cov_funcsMissed: "int option")

subsection \<open>The decoded JaCoCo report\<close>

text \<open>
  A counter attribute that may be missing is an option, and a number when it is
  present. The \<^verbatim>\<open>nr\<close> attribute of a line entry is \<open>None\<close> when it is missing or is not
  a number. The decoder is configured to give
  \<^verbatim>\<open>package\<close>, \<^verbatim>\<open>sourcefile\<close>, \<^verbatim>\<open>line\<close>, \<^verbatim>\<open>counter\<close> and \<^verbatim>\<open>class\<close> as arrays, so
  \<^verbatim>\<open>ensureArray\<close> of each is a list (empty when the element is absent).
\<close>

record JCounter =
  c_type :: "string option"
  c_covered :: "int option"
  c_missed :: "int option"

record JLine =
  l_nr :: "int option"
  l_mi :: "int option"
  l_ci :: "int option"
  l_mb :: "int option"
  l_cb :: "int option"

record JSourcefile =
  jsf_name :: "string option"
  jsf_counter :: "JCounter list"
  jsf_line :: "JLine list"

record JClass =
  jc_sourcefilename :: "string option"
  jc_counter :: "JCounter list"

record JPackage =
  jp_name :: "string option"
  jp_sourcefile :: "JSourcefile list"
  jp_class :: "JClass list"

subsection \<open>Building\<close>

text \<open>\<^verbatim>\<open>counters.find((c) => c["@_type"] === t)\<close>.\<close>

definition find_counter :: "string \<Rightarrow> JCounter list \<Rightarrow> JCounter option" where
  "find_counter t counters = find (\<lambda>c. c_type c = Some t) counters"

text \<open>\<^verbatim>\<open>+(counter?.["@_covered"] ?? 0)\<close> and the same for \<^verbatim>\<open>@_missed\<close>.\<close>

definition counter_covered :: "JCounter option \<Rightarrow> int" where
  "counter_covered c = (case c of None \<Rightarrow> 0 | Some x \<Rightarrow> nullish (c_covered x) 0)"

definition counter_missed :: "JCounter option \<Rightarrow> int" where
  "counter_missed c = (case c of None \<Rightarrow> 0 | Some x \<Rightarrow> nullish (c_missed x) 0)"

text \<open>A line is uncovered when it is executable and nothing of it was covered.\<close>

definition line_uncovered :: "JLine \<Rightarrow> bool" where
  "line_uncovered l =
     (let mi = nullish (l_mi l) 0; ci = nullish (l_ci l) 0;
          mb = nullish (l_mb l) 0; cb = nullish (l_cb l) 0
      in mi + mb > 0 \<and> ci + cb = 0)"

text \<open>
  The comparator \<^verbatim>\<open>(a, b) => a - b\<close> on line numbers. A line number is \<open>None\<close> when
  \<^verbatim>\<open>+l["@_nr"]\<close> is \<^verbatim>\<open>NaN\<close> (the attribute is missing or is not a number; unlike the
  counters, it has no default); the difference is then \<^verbatim>\<open>NaN\<close>, which \<^verbatim>\<open>sort\<close> takes
  as 0.
\<close>

definition nr_compare :: "int option \<Rightarrow> int option \<Rightarrow> int" where
  "nr_compare a b =
     (case a of
        None \<Rightarrow> 0
      | Some x \<Rightarrow> (case b of None \<Rightarrow> 0 | Some y \<Rightarrow> x - y))"

definition uncoveredLines_of :: "JLine list \<Rightarrow> int option list" where
  "uncoveredLines_of lineEntries =
     js_sort nr_compare (map l_nr (filter line_uncovered lineEntries))"

text \<open>The leaf pushed for one \<^verbatim>\<open><sourcefile>\<close> element.\<close>

definition sourcefile_leaf :: "JSourcefile \<Rightarrow> SourceFile" where
  "sourcefile_leaf sf =
     (let counters = jsf_counter sf;
          lineCounter = find_counter ''LINE'' counters;
          methodCounter = find_counter ''METHOD'' counters
      in \<lparr> sf_name = nullish (jsf_name sf) ''unknown'',
           sf_linesCovered = counter_covered lineCounter,
           sf_linesMissed = counter_missed lineCounter,
           sf_funcsCovered = counter_covered methodCounter,
           sf_funcsMissed = counter_missed methodCounter,
           sf_uncoveredLines = uncoveredLines_of (jsf_line sf) \<rparr>)"

text \<open>
  The fallback: the counters of the \<^verbatim>\<open><class>\<close> elements, summed per
  \<^verbatim>\<open>sourcefilename\<close> in a \<^verbatim>\<open>Map\<close> (a name keeps the place of its first class).
\<close>

fun grouped_add :: "string \<Rightarrow> int \<times> int \<times> int \<times> int \<Rightarrow>
    (string \<times> int \<times> int \<times> int \<times> int) list \<Rightarrow> (string \<times> int \<times> int \<times> int \<times> int) list" where
  "grouped_add k d [] = [(k, d)]"
| "grouped_add k d (e # es) =
     (if fst e = k
      then (case (d, snd e) of
              ((lc, lm, fc, fm), (glc, glm, gfc, gfm)) \<Rightarrow>
                (k, glc + lc, glm + lm, gfc + fc, gfm + fm) # es)
      else e # grouped_add k d es)"

definition group_classes :: "JClass list \<Rightarrow> (string \<times> int \<times> int \<times> int \<times> int) list" where
  "group_classes classes =
     foldl (\<lambda>grouped c.
              (let sfname = nullish (jc_sourcefilename c) ''unknown'';
                   counters = jc_counter c;
                   lineCounter = find_counter ''LINE'' counters;
                   methodCounter = find_counter ''METHOD'' counters
               in grouped_add sfname
                    (counter_covered lineCounter, counter_missed lineCounter,
                     counter_covered methodCounter, counter_missed methodCounter)
                    grouped))
       [] classes"

definition grouped_leaf :: "string \<times> int \<times> int \<times> int \<times> int \<Rightarrow> SourceFile" where
  "grouped_leaf g =
     (case g of (name, lc, lm, fc, fm) \<Rightarrow>
        \<lparr> sf_name = name, sf_linesCovered = lc, sf_linesMissed = lm,
          sf_funcsCovered = fc, sf_funcsMissed = fm, sf_uncoveredLines = [] \<rparr>)"

text \<open>The leaves one \<^verbatim>\<open><package>\<close> element pushes onto its node.\<close>

definition package_leaves :: "JPackage \<Rightarrow> SourceFile list" where
  "package_leaves pkg =
     (if length (jp_sourcefile pkg) > 0 then map sourcefile_leaf (jp_sourcefile pkg)
      else map grouped_leaf (group_classes (jp_class pkg)))"

text \<open>
  What the loop body does at the node \<open>cur\<close> it has walked to: push the leaves, then
  sort the node's files by name.
\<close>

definition attach_leaves :: "(string \<Rightarrow> string \<Rightarrow> int) \<Rightarrow> JPackage \<Rightarrow> PackageNode \<Rightarrow> PackageNode" where
  "attach_leaves localeCompare pkg cur =
     (case cur of PackageNode n fn sfs ch lc lm fc fm \<Rightarrow>
        PackageNode n fn
          (js_sort (\<lambda>a b. localeCompare (sf_name a) (sf_name b)) (sfs @ package_leaves pkg))
          ch lc lm fc fm)"

definition new_PackageNode :: "string \<Rightarrow> string \<Rightarrow> PackageNode" where
  "new_PackageNode part path = PackageNode part path [] [] None None None None"

text \<open>\<^verbatim>\<open>Map.has\<close>, and the in-place update of the value stored under a key.\<close>

definition has_key :: "'k \<Rightarrow> ('k \<times> 'v) list \<Rightarrow> bool" where
  "has_key k kvs \<longleftrightarrow> k \<in> fst ` set kvs"

fun modify_key :: "'k \<Rightarrow> ('v \<Rightarrow> 'v) \<Rightarrow> ('k \<times> 'v) list \<Rightarrow> ('k \<times> 'v) list" where
  "modify_key k f [] = []"
| "modify_key k f (e # es) =
     (if fst e = k then (fst e, f (snd e)) # es else e # modify_key k f es)"

text \<open>
  The walk along \<open>parts\<close> from \<open>cur\<close>: a missing child is appended to the map, the
  walk goes on in the child stored under the part, and \<open>at_end\<close> is applied to the node
  where the walk ends.
\<close>

primrec walk_parts :: "string list \<Rightarrow> string \<Rightarrow> (PackageNode \<Rightarrow> PackageNode) \<Rightarrow> PackageNode \<Rightarrow> PackageNode" where
  "walk_parts [] = (\<lambda>path at_end cur. at_end cur)"
| "walk_parts (part # rest) = (\<lambda>path at_end cur.
     (let path' = (if path \<noteq> [] then path @ ''/'' @ part else part);
          children = (if has_key part (cov_children cur) then cov_children cur
                      else cov_children cur @ [(part, new_PackageNode part path')])
      in (case cur of PackageNode n fn sfs ch lc lm fc fm \<Rightarrow>
            PackageNode n fn sfs (modify_key part (walk_parts rest path' at_end) children)
              lc lm fc fm)))"

definition package_parts :: "JPackage \<Rightarrow> string list" where
  "package_parts pkg =
     (let pkgName = map (\<lambda>c. if c = CHR ''.'' then CHR ''/'' else c) (nullish (jp_name pkg) [])
      in if pkgName \<noteq> [] then split_on CHR ''/'' pkgName else [])"

definition add_package :: "(string \<Rightarrow> string \<Rightarrow> int) \<Rightarrow> PackageNode \<Rightarrow> JPackage \<Rightarrow> PackageNode" where
  "add_package localeCompare rt pkg =
     walk_parts (package_parts pkg) [] (attach_leaves localeCompare pkg) rt"

subsection \<open>Aggregation\<close>

fun aggregateCoverage :: "(string \<Rightarrow> string \<Rightarrow> int) \<Rightarrow> PackageNode \<Rightarrow> PackageNode" where
  "aggregateCoverage localeCompare (PackageNode n fn sfs ch lc0 lm0 fc0 fm0) =
     (let children = map (\<lambda>kc. (fst kc, aggregateCoverage localeCompare (snd kc))) ch;
          lc = foldl (\<lambda>a kc. a + nullish (cov_linesCovered (snd kc)) 0) 0 children;
          lm = foldl (\<lambda>a kc. a + nullish (cov_linesMissed (snd kc)) 0) 0 children;
          fc = foldl (\<lambda>a kc. a + nullish (cov_funcsCovered (snd kc)) 0) 0 children;
          fm = foldl (\<lambda>a kc. a + nullish (cov_funcsMissed (snd kc)) 0) 0 children;
          lc = foldl (\<lambda>a f. a + sf_linesCovered f) lc sfs;
          lm = foldl (\<lambda>a f. a + sf_linesMissed f) lm sfs;
          fc = foldl (\<lambda>a f. a + sf_funcsCovered f) fc sfs;
          fm = foldl (\<lambda>a f. a + sf_funcsMissed f) fm sfs
      in PackageNode n fn sfs
           (js_sort (\<lambda>a b. localeCompare (fst a) (fst b)) children)
           (Some lc) (Some lm) (Some fc) (Some fm))"

text \<open>
  The entry point. The argument is \<open>None\<close> when the report file does not exist, else
  the \<^verbatim>\<open><package>\<close> elements of the decoded report; the result \<open>None\<close> is the
  source's \<^verbatim>\<open>null\<close>.
\<close>

definition buildCoverageTreeFromJaCoCo ::
    "(string \<Rightarrow> string \<Rightarrow> int) \<Rightarrow> JPackage list option \<Rightarrow> PackageNode option" where
  "buildCoverageTreeFromJaCoCo localeCompare report =
     (case report of
        None \<Rightarrow> None
      | Some pkgs \<Rightarrow>
          if length pkgs = 0 then None
          else Some (aggregateCoverage localeCompare
                 (foldl (add_package localeCompare)
                    (PackageNode ''All files'' [] [] [] None None None None) pkgs)))"

text \<open>The invariant of an aggregated coverage tree, at every node.\<close>

fun cov_aggregated :: "PackageNode \<Rightarrow> bool" where
  "cov_aggregated (PackageNode n fn sfs ch lc lm fc fm) =
     (lc = Some (sum_list (map sf_linesCovered sfs)
                 + sum_list (map (\<lambda>kc. nullish (cov_linesCovered (snd kc)) 0) ch)) \<and>
      lm = Some (sum_list (map sf_linesMissed sfs)
                 + sum_list (map (\<lambda>kc. nullish (cov_linesMissed (snd kc)) 0) ch)) \<and>
      fc = Some (sum_list (map sf_funcsCovered sfs)
                 + sum_list (map (\<lambda>kc. nullish (cov_funcsCovered (snd kc)) 0) ch)) \<and>
      fm = Some (sum_list (map sf_funcsMissed sfs)
                 + sum_list (map (\<lambda>kc. nullish (cov_funcsMissed (snd kc)) 0) ch)) \<and>
      list_all (\<lambda>kc. cov_aggregated (snd kc)) ch)"

text \<open>Every node of a coverage tree satisfies \<open>P\<close>.\<close>

fun cov_all_nodes :: "(PackageNode \<Rightarrow> bool) \<Rightarrow> PackageNode \<Rightarrow> bool" where
  "cov_all_nodes P (PackageNode n fn sfs ch lc lm fc fm) =
     (P (PackageNode n fn sfs ch lc lm fc fm) \<and>
      list_all (\<lambda>kc. cov_all_nodes P (snd kc)) ch)"

definition children_sorted :: "(string \<Rightarrow> string \<Rightarrow> int) \<Rightarrow> PackageNode \<Rightarrow> bool" where
  "children_sorted cmp node \<longleftrightarrow>
     sorted_wrt (\<lambda>a b. cmp (fst a) (fst b) \<le> 0) (cov_children node)"

text \<open>
  \<^verbatim>\<open>a <= b\<close> on line numbers (every comparison with \<^verbatim>\<open>NaN\<close> is false), and a list of
  line numbers in ascending order.
\<close>

definition nr_le :: "int option \<Rightarrow> int option \<Rightarrow> bool" where
  "nr_le a b =
     (case a of
        None \<Rightarrow> False
      | Some x \<Rightarrow> (case b of None \<Rightarrow> False | Some y \<Rightarrow> x \<le> y))"

definition lines_ascending :: "int option list \<Rightarrow> bool" where
  "lines_ascending xs \<longleftrightarrow> list_all (\<lambda>x. x \<noteq> None) xs \<and> sorted_wrt nr_le xs"

definition leaves_sorted :: "PackageNode \<Rightarrow> bool" where
  "leaves_sorted node \<longleftrightarrow>
     list_all (\<lambda>sf. lines_ascending (sf_uncoveredLines sf)) (cov_sourcefile node)"

text \<open>Every line entry of a package that counts as uncovered has a numeric \<^verbatim>\<open>nr\<close>.\<close>

definition numbered_lines :: "JPackage \<Rightarrow> bool" where
  "numbered_lines pkg \<longleftrightarrow>
     list_all (\<lambda>sf. list_all (\<lambda>l. l_nr l \<noteq> None) (filter line_uncovered (jsf_line sf)))
       (jp_sourcefile pkg)"

subsection \<open>Thresholds and exit codes (\<^verbatim>\<open>commands/coverage.ts\<close>, \<^verbatim>\<open>commands/test.ts\<close>)\<close>

text \<open>The percentage \<^verbatim>\<open>cmdCoverage\<close> computes inline from the root's totals.\<close>

definition threshold_pct :: "int option \<Rightarrow> int option \<Rightarrow> int" where
  "threshold_pct covered missed =
     (if nullish covered 0 + nullish missed 0 = 0 then 0
      else js_round (double_times
             (nearest_double (nullish covered 0) (nullish covered 0 + nullish missed 0)) 100))"

text \<open>
  The exit code of \<^verbatim>\<open>cmdCoverage\<close> from the tree it built and the two optional
  minimums (\<open>None\<close>: the option was not given).
\<close>

definition cmdCoverage :: "PackageNode option \<Rightarrow> rat option \<Rightarrow> rat option \<Rightarrow> int" where
  "cmdCoverage rt minLines minFuncs =
     (case rt of
        None \<Rightarrow> 1
      | Some r \<Rightarrow>
          (let lPct = threshold_pct (cov_linesCovered r) (cov_linesMissed r);
               fPct = threshold_pct (cov_funcsCovered r) (cov_funcsMissed r);
               exitCode = 0;
               exitCode = (case minLines of
                             Some m \<Rightarrow> if of_int lPct < m then 2 else exitCode
                           | None \<Rightarrow> exitCode);
               exitCode = (case minFuncs of
                             Some m \<Rightarrow> if of_int fPct < m then max exitCode 2 else exitCode
                           | None \<Rightarrow> exitCode)
           in exitCode))"

text \<open>
  The code \<^verbatim>\<open>cmdTest\<close> returns: \<open>testCode\<close> is the exit code of the Gradle run,
  \<open>coverage\<close> the \<^verbatim>\<open>--coverage\<close> option and \<open>covCode\<close> what \<^verbatim>\<open>cmdCoverage\<close> returned.
\<close>

definition cmdTest :: "int \<Rightarrow> bool \<Rightarrow> int \<Rightarrow> int" where
  "cmdTest testCode coverage covCode =
     (let finalCode = testCode;
          finalCode = (if coverage then (if covCode \<noteq> 0 then covCode else finalCode)
                       else finalCode)
      in finalCode)"

subsection \<open>The runs read by the loop of \<^verbatim>\<open>compressLines\<close>\<close>

text \<open>
  The loop of \<^verbatim>\<open>compressLines\<close> with the runs themselves in place of their tokens:
  what the loop has pushed, as pairs.
\<close>

fun runs_loop :: "int \<Rightarrow> int \<Rightarrow> int list \<Rightarrow> (int \<times> int) list" where
  "runs_loop s e [] = [(s, e)]"
| "runs_loop s e (v # vs) =
     (if v = e + 1 then runs_loop s v vs else (s, e) # runs_loop v v vs)"

definition runs_of :: "int list \<Rightarrow> (int \<times> int) list" where
  "runs_of xs = (case xs of [] \<Rightarrow> [] | x # rest \<Rightarrow> runs_loop x x rest)"

subsection \<open>Example inputs\<close>

text \<open>A coverage root whose totals are 40 covered and 60 missed lines.\<close>

definition root_40_60 :: PackageNode where
  "root_40_60 = PackageNode ''All files'' [] [] [] (Some 40) (Some 60) (Some 0) (Some 0)"

text \<open>
  A report with two packages. Package \<open>b\<close> has one source file with the uncovered
  lines 15, 10 and 11 listed in that order (line 12 is covered); package \<open>a\<close> has no
  source file element, only a class.
\<close>

definition pkg_b :: JPackage where
  "pkg_b =
     \<lparr> jp_name = Some ''b'',
       jp_sourcefile =
         [\<lparr> jsf_name = Some ''Foo.java'',
            jsf_counter =
              [\<lparr> c_type = Some ''LINE'', c_covered = Some 8, c_missed = Some 2 \<rparr>,
               \<lparr> c_type = Some ''METHOD'', c_covered = Some 1, c_missed = Some 1 \<rparr>],
            jsf_line =
              [\<lparr> l_nr = Some 15, l_mi = Some 1, l_ci = Some 0, l_mb = Some 0, l_cb = Some 0 \<rparr>,
               \<lparr> l_nr = Some 10, l_mi = Some 2, l_ci = Some 0, l_mb = Some 0, l_cb = Some 0 \<rparr>,
               \<lparr> l_nr = Some 12, l_mi = Some 0, l_ci = Some 3, l_mb = Some 0, l_cb = Some 0 \<rparr>,
               \<lparr> l_nr = Some 11, l_mi = Some 0, l_ci = Some 0, l_mb = Some 1, l_cb = Some 0 \<rparr>] \<rparr>],
       jp_class = [] \<rparr>"

definition pkg_a :: JPackage where
  "pkg_a =
     \<lparr> jp_name = Some ''a'',
       jp_sourcefile = [],
       jp_class =
         [\<lparr> jc_sourcefilename = Some ''Bar.java'',
            jc_counter = [\<lparr> c_type = Some ''LINE'', c_covered = Some 5, c_missed = Some 5 \<rparr>] \<rparr>] \<rparr>"

definition tree_a_b :: PackageNode where
  "tree_a_b =
     PackageNode ''All files'' [] []
       [(''a'', PackageNode ''a'' ''a''
                 [\<lparr> sf_name = ''Bar.java'', sf_linesCovered = 5, sf_linesMissed = 5,
                    sf_funcsCovered = 0, sf_funcsMissed = 0, sf_uncoveredLines = [] \<rparr>]
                 [] (Some 5) (Some 5) (Some 0) (Some 0)),
        (''b'', PackageNode ''b'' ''b''
                 [\<lparr> sf_name = ''Foo.java'', sf_linesCovered = 8, sf_linesMissed = 2,
                    sf_funcsCovered = 1, sf_funcsMissed = 1,
                    sf_uncoveredLines = [Some 10, Some 11, Some 15] \<rparr>]
                 [] (Some 8) (Some 2) (Some 1) (Some 1))]
       (Some 13) (Some 7) (Some 1) (Some 1)"

text \<open>A package element without source files and without classes.\<close>

definition pkg_empty :: JPackage where
  "pkg_empty = \<lparr> jp_name = Some ''c'', jp_sourcefile = [], jp_class = [] \<rparr>"

text \<open>
  A package whose source file has three uncovered line entries, the second one
  without an \<^verbatim>\<open>nr\<close> attribute, and the tree built from it.
\<close>

definition pkg_unnumbered :: JPackage where
  "pkg_unnumbered =
     \<lparr> jp_name = Some ''u'',
       jp_sourcefile =
         [\<lparr> jsf_name = Some ''Baz.java'',
            jsf_counter = [],
            jsf_line =
              [\<lparr> l_nr = Some 3, l_mi = Some 1, l_ci = Some 0, l_mb = Some 0, l_cb = Some 0 \<rparr>,
               \<lparr> l_nr = None, l_mi = Some 1, l_ci = Some 0, l_mb = Some 0, l_cb = Some 0 \<rparr>,
               \<lparr> l_nr = Some 1, l_mi = Some 1, l_ci = Some 0, l_mb = Some 0, l_cb = Some 0 \<rparr>] \<rparr>],
       jp_class = [] \<rparr>"

definition tree_unnumbered :: PackageNode where
  "tree_unnumbered =
     PackageNode ''All files'' [] []
       [(''u'', PackageNode ''u'' ''u''
                 [\<lparr> sf_name = ''Baz.java'', sf_linesCovered = 0, sf_linesMissed = 0,
                    sf_funcsCovered = 0, sf_funcsMissed = 0,
                    sf_uncoveredLines = [Some 3, None, Some 1] \<rparr>]
                 [] (Some 0) (Some 0) (Some 0) (Some 0))]
       (Some 0) (Some 0) (Some 0) (Some 0)"

text \<open>
  A package named \<open>B\<close>, and the tree built from it followed by the package \<open>a\<close>.
\<close>

definition pkg_upper_B :: JPackage where
  "pkg_upper_B = \<lparr> jp_name = Some ''B'', jp_sourcefile = [], jp_class = [] \<rparr>"

definition tree_a_upper_B :: PackageNode where
  "tree_a_upper_B =
     PackageNode ''All files'' [] []
       [(''a'', PackageNode ''a'' ''a''
                 [\<lparr> sf_name = ''Bar.java'', sf_linesCovered = 5, sf_linesMissed = 5,
                    sf_funcsCovered = 0, sf_funcsMissed = 0, sf_uncoveredLines = [] \<rparr>]
                 [] (Some 5) (Some 5) (Some 0) (Some 0)),
        (''B'', PackageNode ''B'' ''B'' [] [] (Some 0) (Some 0) (Some 0) (Some 0))]
       (Some 5) (Some 5) (Some 0) (Some 0)"

section \<open>The outcome tree (\<^verbatim>\<open>testsTree.ts\<close>)\<close>

subsection \<open>Nodes and leaves\<close>

datatype TestStatus = Passed | Failed | Skipped

record TestCaseNode =
  tc_name :: string
  tc_durationMs :: int
  tc_status :: TestStatus
  tc_failureMessage :: "string option"
  tc_failureType :: "string option"
  tc_failureDetail :: "string option"

record Counts =
  passed :: int
  failed :: int
  skipped :: int

record TestClassNode =
  cls_name :: string
  cls_fullName :: string
  cls_cases :: "TestCaseNode list"
  cls_counts :: Counts
  cls_durationMs :: int

datatype TestPackageNode = TestPackageNode
  (pkg_name: string)
  (pkg_fullName: string)
  (pkg_children: "(string \<times> TestPackageNode) list")
  (pkg_classes: "(string \<times> TestClassNode) list")
  (pkg_counts: Counts)
  (pkg_durationMs: int)


definition zero_counts :: Counts where
  "zero_counts = \<lparr> passed = 0, failed = 0, skipped = 0 \<rparr>"

subsection \<open>The decoded JUnit reports\<close>

text \<open>
  What the decoder gives for an element that may be absent, occur once (an object) or
  occur several times (an array).
\<close>

datatype 'a xml_children = Absent | One 'a | Many "'a list"

text \<open>
  A \<^verbatim>\<open><failure>\<close> or \<^verbatim>\<open><error>\<close> element that is truthy; \<open>f_text\<close> is its \<^verbatim>\<open>#text\<close>
  when that is a string.
\<close>

record JFailure =
  f_message :: "string option"
  f_type :: "string option"
  f_text :: "string option"

text \<open>
  A \<^verbatim>\<open><testcase>\<close> element. \<open>a_time\<close> is the double \<^verbatim>\<open>+tc["@_time"]\<close>, \<open>None\<close> when
  that is \<^verbatim>\<open>NaN\<close> (the attribute is missing or is not a number); \<open>e_failure\<close> and
  \<open>e_error\<close> are \<open>None\<close> when the element is absent or falsy; \<open>e_skipped\<close> says
  that \<^verbatim>\<open>tc.skipped\<close> is truthy.
\<close>

record JCase =
  a_name :: "string option"
  a_time :: "double option"
  a_classname :: "string option"
  a_status :: "string option"
  e_failure :: "JFailure option"
  e_error :: "JFailure option"
  e_skipped :: bool

record JSuite =
  s_name :: "string option"
  s_testcase :: "JCase xml_children"

record JData =
  d_testsuite :: "JSuite option"
  d_testsuites_testsuite :: "JSuite xml_children"

subsection \<open>Helpers\<close>

definition normalizeSuites :: "JData \<Rightarrow> JSuite list" where
  "normalizeSuites data =
     (case d_testsuite data of
        Some s \<Rightarrow> [s]
      | None \<Rightarrow>
          (case d_testsuites_testsuite data of
             Absent \<Rightarrow> []
           | One s \<Rightarrow> [s]
           | Many ss \<Rightarrow> ss))"

definition normalizeCases :: "JSuite \<Rightarrow> JCase list" where
  "normalizeCases suite =
     (case s_testcase suite of
        Absent \<Rightarrow> []
      | One t \<Rightarrow> [t]
      | Many ts \<Rightarrow> ts)"

text \<open>\<^verbatim>\<open>a || d\<close> on an optional string: a missing and an empty string are falsy.\<close>

definition or_str :: "string option \<Rightarrow> string \<Rightarrow> string" where
  "or_str v d = (case v of None \<Rightarrow> d | Some s \<Rightarrow> (if s \<noteq> [] then s else d))"

text \<open>
  The result is \<open>(pkgPath, className, fullName)\<close>; the class name is what follows
  the last dot, the package path the non-empty pieces of what precedes it.
\<close>

definition splitClassName :: "string \<Rightarrow> string list \<times> string \<times> string" where
  "splitClassName classname =
     (if CHR ''.'' \<notin> set classname then ([], classname, classname)
      else
        (let pkgStr = rev (tl (dropWhile (\<lambda>c. c \<noteq> CHR ''.'') (rev classname)));
             className = rev (takeWhile (\<lambda>c. c \<noteq> CHR ''.'') (rev classname))
         in (filter (\<lambda>p. p \<noteq> []) (split_on CHR ''.'' pkgStr), className, classname)))"

text \<open>\<^verbatim>\<open>tc.failure || tc.error\<close>.\<close>

definition failure_of :: "JCase \<Rightarrow> JFailure option" where
  "failure_of tc = (case e_failure tc of Some f \<Rightarrow> Some f | None \<Rightarrow> e_error tc)"

definition classify :: "JCase \<Rightarrow> TestStatus" where
  "classify tc =
     (if failure_of tc \<noteq> None then Failed
      else if e_skipped tc \<or> a_status tc = Some ''skipped'' then Skipped
      else Passed)"

definition failureMessage :: "JCase \<Rightarrow> string option" where
  "failureMessage tc = (case failure_of tc of None \<Rightarrow> None | Some f \<Rightarrow> f_message f)"

definition failureType :: "JCase \<Rightarrow> string option" where
  "failureType tc = (case failure_of tc of None \<Rightarrow> None | Some f \<Rightarrow> f_type f)"

definition failureDetail :: "JCase \<Rightarrow> string option" where
  "failureDetail tc = (case failure_of tc of None \<Rightarrow> None | Some f \<Rightarrow> f_text f)"

text \<open>\<^verbatim>\<open>+tc["@_time"] || 0\<close>: \<^verbatim>\<open>NaN\<close> and zero are falsy.\<close>

definition timeSec_of :: "JCase \<Rightarrow> double" where
  "timeSec_of tc =
     (case a_time tc of None \<Rightarrow> (0, 0) | Some t \<Rightarrow> (if fst t \<noteq> 0 then t else (0, 0)))"

text \<open>The \<^verbatim>\<open>caseNode\<close> the builder constructs for a decoded test case.\<close>

definition caseNode_of :: "JCase \<Rightarrow> TestCaseNode" where
  "caseNode_of tc =
     \<lparr> tc_name = nullish (a_name tc) ''unknown'',
       tc_durationMs = js_round (double_times (timeSec_of tc) 1000),
       tc_status = classify tc,
       tc_failureMessage = failureMessage tc,
       tc_failureType = failureType tc,
       tc_failureDetail = failureDetail tc \<rparr>"

text \<open>\<^verbatim>\<open>tc["@_classname"] || s["@_name"] || "unknown.UnknownClass"\<close>.\<close>

definition classname_of :: "JSuite \<Rightarrow> JCase \<Rightarrow> string" where
  "classname_of s tc = or_str (a_classname tc) (or_str (s_name s) ''unknown.UnknownClass'')"

definition new_TestPackageNode :: "string \<Rightarrow> string \<Rightarrow> TestPackageNode" where
  "new_TestPackageNode part full = TestPackageNode part full [] [] zero_counts 0"

text \<open>
  \<^verbatim>\<open>ensurePackage\<close>: the walk along \<open>path\<close>, a missing child appended to the map; the
  node it returns is the one \<open>at_end\<close> is applied to.
\<close>

primrec ensurePackage :: "string list \<Rightarrow> string \<Rightarrow> (TestPackageNode \<Rightarrow> TestPackageNode) \<Rightarrow>
    TestPackageNode \<Rightarrow> TestPackageNode" where
  "ensurePackage [] = (\<lambda>full at_end cur. at_end cur)"
| "ensurePackage (part # rest) = (\<lambda>full at_end cur.
     (let full' = (if full \<noteq> [] then full @ ''.'' @ part else part);
          children = (if has_key part (pkg_children cur) then pkg_children cur
                      else pkg_children cur @ [(part, new_TestPackageNode part full')])
      in (case cur of TestPackageNode n fn ch cl cnt dur \<Rightarrow>
            TestPackageNode n fn (modify_key part (ensurePackage rest full' at_end) children)
              cl cnt dur)))"

text \<open>
  \<^verbatim>\<open>ensureClass\<close>: a missing class is appended to the map; the class it returns is the
  one \<open>on_class\<close> is applied to.
\<close>

definition ensureClass :: "string \<Rightarrow> string \<Rightarrow> (TestClassNode \<Rightarrow> TestClassNode) \<Rightarrow>
    TestPackageNode \<Rightarrow> TestPackageNode" where
  "ensureClass className fullName on_class pkg =
     (let classes = (if has_key className (pkg_classes pkg) then pkg_classes pkg
                     else pkg_classes pkg @
                       [(className, \<lparr> cls_name = className, cls_fullName = fullName,
                                      cls_cases = [], cls_counts = zero_counts,
                                      cls_durationMs = 0 \<rparr>)])
      in (case pkg of TestPackageNode n fn ch cl cnt dur \<Rightarrow>
            TestPackageNode n fn ch (modify_key className on_class classes) cnt dur))"

subsection \<open>Aggregation\<close>

text \<open>The inner loop over the cases of a class: the duration and \<^verbatim>\<open>counts[c.status]++\<close>.\<close>

definition bump :: "TestStatus \<Rightarrow> Counts \<Rightarrow> Counts" where
  "bump st c =
     (case st of
        Passed \<Rightarrow> c\<lparr> passed := passed c + 1 \<rparr>
      | Failed \<Rightarrow> c\<lparr> failed := failed c + 1 \<rparr>
      | Skipped \<Rightarrow> c\<lparr> skipped := skipped c + 1 \<rparr>)"

definition aggregate_class :: "TestClassNode \<Rightarrow> TestClassNode" where
  "aggregate_class cls =
     (let dur = foldl (\<lambda>d c. d + tc_durationMs c) 0 (cls_cases cls);
          counts = foldl (\<lambda>cnt c. bump (tc_status c) cnt) zero_counts (cls_cases cls)
      in cls\<lparr> cls_durationMs := dur, cls_counts := counts \<rparr>)"

definition add_counts :: "Counts \<Rightarrow> Counts \<Rightarrow> Counts" where
  "add_counts a b =
     \<lparr> passed = passed a + passed b, failed = failed a + failed b,
       skipped = skipped a + skipped b \<rparr>"

text \<open>
  \<^verbatim>\<open>aggregate\<close>: the classes are recomputed and added to the node's own fields, then
  every child is aggregated and added to them. The node's fields are added to
  (\<^verbatim>\<open>+=\<close>), starting from what they hold.
\<close>

fun aggregate :: "TestPackageNode \<Rightarrow> TestPackageNode" where
  "aggregate (TestPackageNode n fn ch cl cnt dur) =
     (let classes = map (\<lambda>kc. (fst kc, aggregate_class (snd kc))) cl;
          dur = foldl (\<lambda>d kc. d + cls_durationMs (snd kc)) dur classes;
          cnt = foldl (\<lambda>c kc. add_counts c (cls_counts (snd kc))) cnt classes;
          children = map (\<lambda>kc. (fst kc, aggregate (snd kc))) ch;
          dur = foldl (\<lambda>d kc. d + pkg_durationMs (snd kc)) dur children;
          cnt = foldl (\<lambda>c kc. add_counts c (pkg_counts (snd kc))) cnt children
      in TestPackageNode n fn children classes cnt dur)"

subsection \<open>Building\<close>

text \<open>The body of the innermost loop: one test case of one suite.\<close>

definition add_case :: "JSuite \<Rightarrow> TestPackageNode \<Rightarrow> JCase \<Rightarrow> TestPackageNode" where
  "add_case s rt tc =
     (case splitClassName (classname_of s tc) of
        (pkgPath, className, fullName) \<Rightarrow>
          ensurePackage pkgPath []
            (ensureClass className fullName
               (\<lambda>cls. cls\<lparr> cls_cases := cls_cases cls @ [caseNode_of tc] \<rparr>))
            rt)"

definition add_suite :: "TestPackageNode \<Rightarrow> JSuite \<Rightarrow> TestPackageNode" where
  "add_suite rt s = foldl (add_case s) rt (normalizeCases s)"

text \<open>
  One report file: \<open>None\<close> when the entry is not a regular file or the decoder threw
  (the loop goes on to the next file), else the decoded document.
\<close>

definition add_file :: "TestPackageNode \<Rightarrow> JData option \<Rightarrow> TestPackageNode" where
  "add_file rt f =
     (case f of
        None \<Rightarrow> rt
      | Some data \<Rightarrow> foldl add_suite rt (normalizeSuites data))"

definition tests_root :: TestPackageNode where
  "tests_root = TestPackageNode ''All tests'' [] [] [] zero_counts 0"

text \<open>
  The entry point. The argument is \<open>None\<close> when the directory does not exist, else
  its \<^verbatim>\<open>.xml\<close> entries in directory order; the result \<open>None\<close> is the source's
  \<^verbatim>\<open>null\<close>.
\<close>

definition buildTestsTree :: "JData option list option \<Rightarrow> TestPackageNode option" where
  "buildTestsTree dir =
     (case dir of
        None \<Rightarrow> None
      | Some files \<Rightarrow> Some (aggregate (foldl add_file tests_root files)))"

text \<open>
  The invariant of an aggregated outcome tree. A class holds the counts and the
  duration of its own cases; a node holds the sum over its classes plus the sum over
  its children, and every child is aggregated in turn.
\<close>

definition count_status :: "TestStatus \<Rightarrow> TestCaseNode list \<Rightarrow> int" where
  "count_status st cases = int (length (filter (\<lambda>c. tc_status c = st) cases))"

definition class_aggregated :: "TestClassNode \<Rightarrow> bool" where
  "class_aggregated cls \<longleftrightarrow>
     passed (cls_counts cls) = count_status Passed (cls_cases cls) \<and>
     failed (cls_counts cls) = count_status Failed (cls_cases cls) \<and>
     skipped (cls_counts cls) = count_status Skipped (cls_cases cls) \<and>
     cls_durationMs cls = sum_list (map tc_durationMs (cls_cases cls))"

fun aggregated :: "TestPackageNode \<Rightarrow> bool" where
  "aggregated (TestPackageNode n fn ch cl cnt dur) =
     (passed cnt = sum_list (map (\<lambda>kc. passed (cls_counts (snd kc))) cl)
                 + sum_list (map (\<lambda>kc. passed (pkg_counts (snd kc))) ch) \<and>
      failed cnt = sum_list (map (\<lambda>kc. failed (cls_counts (snd kc))) cl)
                 + sum_list (map (\<lambda>kc. failed (pkg_counts (snd kc))) ch) \<and>
      skipped cnt = sum_list (map (\<lambda>kc. skipped (cls_counts (snd kc))) cl)
                  + sum_list (map (\<lambda>kc. skipped (pkg_counts (snd kc))) ch) \<and>
      dur = sum_list (map (\<lambda>kc. cls_durationMs (snd kc)) cl)
          + sum_list (map (\<lambda>kc. pkg_durationMs (snd kc)) ch) \<and>
      list_all (\<lambda>kc. class_aggregated (snd kc)) cl \<and>
      list_all (\<lambda>kc. aggregated (snd kc)) ch)"

text \<open>The numbers of every node and class of a tree, in tree order.\<close>

fun tree_numbers :: "TestPackageNode \<Rightarrow> (Counts \<times> int) list" where
  "tree_numbers (TestPackageNode n fn ch cl cnt dur) =
     (cnt, dur) # map (\<lambda>kc. (cls_counts (snd kc), cls_durationMs (snd kc))) cl
       @ concat (map (\<lambda>kc. tree_numbers (snd kc)) ch)"

subsection \<open>Example reports\<close>

text \<open>A test case of class \<open>Foo\<close> that passed in 0.25 s.\<close>

definition case_passed :: JCase where
  "case_passed =
     \<lparr> a_name = Some ''works'', a_time = Some (1, - 2), a_classname = Some ''Foo'',
       a_status = None, e_failure = None, e_error = None, e_skipped = False \<rparr>"

text \<open>A test case whose \<^verbatim>\<open>time\<close> attribute is \<open>-1.5\<close>.\<close>

definition case_negative_time :: JCase where
  "case_negative_time =
     \<lparr> a_name = Some ''skewed'', a_time = Some (- 3, - 1), a_classname = Some ''Foo'',
       a_status = None, e_failure = None, e_error = None, e_skipped = False \<rparr>"

text \<open>A report file with one suite holding the one passed case.\<close>

definition report_one_passed :: JData where
  "report_one_passed =
     \<lparr> d_testsuite = Some \<lparr> s_name = Some ''Foo'', s_testcase = One case_passed \<rparr>,
       d_testsuites_testsuite = Absent \<rparr>"










subsection \<open>Statements about every node\<close>

text \<open>Every node of an outcome tree satisfies \<open>P\<close>.\<close>

fun pkg_all_nodes :: "(TestPackageNode \<Rightarrow> bool) \<Rightarrow> TestPackageNode \<Rightarrow> bool" where
  "pkg_all_nodes P (TestPackageNode n fn ch cl cnt dur) =
     (P (TestPackageNode n fn ch cl cnt dur) \<and>
      list_all (\<lambda>kc. pkg_all_nodes P (snd kc)) ch)"

text \<open>A node as the builder creates it: no totals yet.\<close>

definition fresh_node :: "TestPackageNode \<Rightarrow> bool" where
  "fresh_node node \<longleftrightarrow> pkg_counts node = zero_counts \<and> pkg_durationMs node = 0"

text \<open>The four totals of a coverage node are all zero.\<close>

definition cov_zero :: "PackageNode \<Rightarrow> bool" where
  "cov_zero node \<longleftrightarrow>
     cov_linesCovered node = Some 0 \<and> cov_linesMissed node = Some 0 \<and>
     cov_funcsCovered node = Some 0 \<and> cov_funcsMissed node = Some 0"

text \<open>A report file, or a package of a coverage report, that brings no leaf.\<close>

definition no_cases :: "JData option \<Rightarrow> bool" where
  "no_cases f =
     (case f of
        None \<Rightarrow> True
      | Some data \<Rightarrow> list_all (\<lambda>s. normalizeCases s = []) (normalizeSuites data))"

definition no_leaves :: "JPackage \<Rightarrow> bool" where
  "no_leaves pkg \<longleftrightarrow> jp_sourcefile pkg = [] \<and> jp_class pkg = []"


subsection \<open>Rendering\<close>


























subsection \<open>The lines of a rendering\<close>













section \<open>Evaluation and arithmetic of doubles\<close>

lemmas double_eval =
  js_round_def double_times_def nearest_double_def nearest_pos_def binade_def
  round_half_even_def bit_length.simps Let_def

lemma round_half_even_nonneg: "0 \<le> num \<Longrightarrow> 0 < den \<Longrightarrow> 0 \<le> round_half_even num den"
  by (simp add: round_half_even_def Let_def pos_imp_zdiv_nonneg_iff)

lemma nearest_pos_nonneg: "0 \<le> num \<Longrightarrow> 0 < den \<Longrightarrow> 0 \<le> fst (nearest_pos num den)"
  by (simp add: nearest_pos_def Let_def round_half_even_nonneg)

lemma nearest_double_nonneg: "0 \<le> num \<Longrightarrow> 0 < den \<Longrightarrow> 0 \<le> fst (nearest_double num den)"
  by (simp add: nearest_double_def nearest_pos_nonneg)

lemma double_times_nonneg: "0 \<le> fst x \<Longrightarrow> 0 \<le> n \<Longrightarrow> 0 \<le> fst (double_times x n)"
  by (cases x) (simp add: double_times_def nearest_double_nonneg)

lemma js_round_nonneg: "0 \<le> fst x \<Longrightarrow> 0 \<le> js_round x"
  by (cases x) (simp add: js_round_def pos_imp_zdiv_nonneg_iff)

section \<open>Sorting, sums and maps\<close>

lemma set_insert_cmp: "set (insert_cmp cmp x ys) = insert x (set ys)"
  by (induction ys) auto

lemma set_js_sort: "set (js_sort cmp xs) = set xs"
  unfolding js_sort_def by (induction xs) (simp_all add: set_insert_cmp)

lemma length_insert_cmp: "length (insert_cmp cmp x ys) = Suc (length ys)"
  by (induction ys) auto

lemma length_js_sort: "length (js_sort cmp xs) = length xs"
  unfolding js_sort_def by (induction xs) (simp_all add: length_insert_cmp)

lemma sum_list_insert_cmp:
  fixes f :: "'a \<Rightarrow> int"
  shows "sum_list (map f (insert_cmp cmp x ys)) = f x + sum_list (map f ys)"
  by (induction ys) auto

lemma sum_list_js_sort:
  fixes f :: "'a \<Rightarrow> int"
  shows "sum_list (map f (js_sort cmp xs)) = sum_list (map f xs)"
  unfolding js_sort_def by (induction xs) (simp_all add: sum_list_insert_cmp)

lemma sorted_insert_cmp:
  assumes "consistent_cmp cmp" and "sorted_wrt (\<lambda>a b. cmp a b \<le> 0) ys"
  shows "sorted_wrt (\<lambda>a b. cmp a b \<le> 0) (insert_cmp cmp x ys)"
  using assms(2)
proof (induction ys)
  case Nil
  then show ?case by simp
next
  case (Cons y ys)
  have total: "cmp a b \<le> 0 \<or> cmp b a \<le> 0" for a b
    using assms(1) unfolding consistent_cmp_def by blast
  have trans: "cmp a b \<le> 0 \<Longrightarrow> cmp b c \<le> 0 \<Longrightarrow> cmp a c \<le> 0" for a b c
    using assms(1) unfolding consistent_cmp_def by blast
  show ?case
  proof (cases "cmp x y \<le> 0")
    case True
    then have "\<forall>z \<in> set ys. cmp x z \<le> 0"
      using Cons.prems trans by auto
    with True Cons.prems show ?thesis by simp
  next
    case False
    then have "cmp y x \<le> 0" using total by blast
    with False Cons show ?thesis by (auto simp: set_insert_cmp)
  qed
qed

lemma sorted_js_sort:
  "consistent_cmp cmp \<Longrightarrow> sorted_wrt (\<lambda>a b. cmp a b \<le> 0) (js_sort cmp xs)"
  unfolding js_sort_def by (induction xs) (simp_all add: sorted_insert_cmp)

lemma consistent_cmp_on_keys:
  "consistent_cmp cmp \<Longrightarrow> consistent_cmp (\<lambda>a b. cmp (fst a) (fst b))"
  unfolding consistent_cmp_def by blast

lemma consistent_cmp_minus: "consistent_cmp (\<lambda>a b :: int. a - b)"
  unfolding consistent_cmp_def by auto

lemma consistent_code_unit_compare: "consistent_cmp code_unit_compare"
  unfolding consistent_cmp_def code_unit_compare_def by auto

lemma locale_compare_le:
  "locale_compare a b \<le> 0 \<longleftrightarrow>
     map to_lower a < map to_lower b \<or>
     map to_lower a = map to_lower b \<and> map is_upper a \<le> map is_upper b"
  unfolding locale_compare_def by auto

lemma consistent_locale_compare: "consistent_cmp locale_compare"
  unfolding consistent_cmp_def locale_compare_le by (auto intro: less_trans)

lemma foldl_plus_sum_list:
  fixes f :: "'a \<Rightarrow> int"
  shows "foldl (\<lambda>a x. a + f x) a0 xs = a0 + sum_list (map f xs)"
  by (induction xs arbitrary: a0) simp_all

lemma set_modify_key:
  "set (modify_key k f kvs) \<subseteq> set kvs \<union> {(k, f v) | v. (k, v) \<in> set kvs}"
  by (induction kvs) auto

lemma list_all_modify_key:
  assumes "list_all (\<lambda>kv. P (snd kv)) kvs" and "\<And>v. P v \<Longrightarrow> P (f v)"
  shows "list_all (\<lambda>kv. P (snd kv)) (modify_key k f kvs)"
  using assms(1) by (induction kvs) (auto simp: assms(2))

lemma foldl_invariant:
  assumes "P a" and "\<And>a x. P a \<Longrightarrow> x \<in> set xs \<Longrightarrow> P (f a x)"
  shows "P (foldl f a xs)"
  using assms by (induction xs arbitrary: a) simp_all

section \<open>The example reports, built\<close>

lemma build_one_passed:
  "buildTestsTree (Some [Some report_one_passed]) =
     Some (TestPackageNode ''All tests'' [] []
       [(''Foo'', \<lparr> cls_name = ''Foo'', cls_fullName = ''Foo'',
                   cls_cases = [caseNode_of case_passed],
                   cls_counts = \<lparr> passed = 1, failed = 0, skipped = 0 \<rparr>,
                   cls_durationMs = 250 \<rparr>)]
       \<lparr> passed = 1, failed = 0, skipped = 0 \<rparr> 250)"
proof -
  have c: "tc_status (caseNode_of case_passed) = Passed"
    "tc_durationMs (caseNode_of case_passed) = 250"
    by (simp_all add: caseNode_of_def case_passed_def classify_def failure_of_def
        timeSec_of_def double_eval)
  have s: "splitClassName (classname_of \<lparr> s_name = Some ''Foo'', s_testcase = One case_passed \<rparr>
             case_passed) = ([], ''Foo'', ''Foo'')"
    by (simp add: classname_of_def or_str_def case_passed_def splitClassName_def)
  show ?thesis
    by (simp add: buildTestsTree_def add_file_def report_one_passed_def normalizeSuites_def
        add_suite_def normalizeCases_def add_case_def s ensureClass_def has_key_def
        tests_root_def aggregate_class_def c bump_def zero_counts_def add_counts_def)
qed


lemma code_unit_compare_a_b:
  "code_unit_compare ''b'' ''a'' = 1" "code_unit_compare ''a'' ''b'' = - 1"
  by (simp_all add: code_unit_compare_def)

lemma build_a_b:
  "buildCoverageTreeFromJaCoCo code_unit_compare (Some [pkg_b, pkg_a]) = Some tree_a_b"
  by (simp add: buildCoverageTreeFromJaCoCo_def add_package_def package_parts_def pkg_a_def
      pkg_b_def nullish_def has_key_def new_PackageNode_def attach_leaves_def package_leaves_def
      sourcefile_leaf_def find_counter_def counter_covered_def counter_missed_def
      uncoveredLines_of_def line_uncovered_def js_sort_def group_classes_def grouped_leaf_def
      nr_compare_def code_unit_compare_a_b tree_a_b_def Let_def)

lemma locale_compare_a_B:
  "locale_compare ''a'' ''B'' = - 1" "locale_compare ''B'' ''a'' = 1"
  by (simp_all add: locale_compare_def to_lower_def is_upper_def)

lemma build_a_upper_B:
  "buildCoverageTreeFromJaCoCo locale_compare (Some [pkg_upper_B, pkg_a]) = Some tree_a_upper_B"
  by (simp add: buildCoverageTreeFromJaCoCo_def add_package_def package_parts_def pkg_a_def
      pkg_upper_B_def nullish_def has_key_def new_PackageNode_def attach_leaves_def
      package_leaves_def find_counter_def counter_covered_def counter_missed_def js_sort_def
      group_classes_def grouped_leaf_def locale_compare_a_B tree_a_upper_B_def Let_def)

lemma build_unnumbered:
  "buildCoverageTreeFromJaCoCo code_unit_compare (Some [pkg_unnumbered]) = Some tree_unnumbered"
  by (simp add: buildCoverageTreeFromJaCoCo_def add_package_def package_parts_def
      pkg_unnumbered_def nullish_def has_key_def new_PackageNode_def attach_leaves_def
      package_leaves_def sourcefile_leaf_def find_counter_def counter_covered_def
      counter_missed_def uncoveredLines_of_def line_uncovered_def js_sort_def nr_compare_def
      tree_unnumbered_def Let_def)





section \<open>Accuracy of the double-precision operations\<close>

lemma bit_length_bounds:
  "0 < n \<Longrightarrow> 2 ^ (bit_length n - 1) \<le> n \<and> n < 2 ^ bit_length n"
proof (induction n rule: bit_length.induct)
  case (1 n)
  show ?case
  proof (cases "n div 2 = 0")
    case True
    then have "n = 1" using "1.prems" by presburger
    then show ?thesis by (simp add: bit_length.simps)
  next
    case False
    then have pos: "0 < n div 2" by simp
    have bl: "bit_length n = Suc (bit_length (n div 2))"
      using "1.prems" by (subst bit_length.simps) simp
    have blpos: "0 < bit_length (n div 2)"
      using pos by (subst bit_length.simps) simp
    from "1.IH" [OF _ pos] "1.prems"
    have lo: "2 ^ (bit_length (n div 2) - 1) \<le> n div 2" and hi: "n div 2 < 2 ^ bit_length (n div 2)"
      by simp_all
    have "2 ^ (bit_length n - 1) = 2 * 2 ^ (bit_length (n div 2) - 1)"
      using blpos by (simp add: bl flip: power_Suc)
    also have "\<dots> \<le> 2 * (n div 2)" using lo by simp
    also have "\<dots> \<le> n" by simp
    finally have a: "2 ^ (bit_length n - 1) \<le> n" .
    have "n < 2 * (n div 2) + 2" by presburger
    also have "\<dots> \<le> 2 * 2 ^ bit_length (n div 2)" using hi by simp
    finally have "n < 2 ^ bit_length n" by (simp add: bl)
    with a show ?thesis by blast
  qed
qed

lemma round_half_even_error:
  assumes "0 < den"
  shows "\<bar>of_int (round_half_even num den) - (of_int num / of_int den :: rat)\<bar> \<le> 1 / 2"
proof -
  define q where "q = num div den"
  define r where "r = num mod den"
  have num: "num = q * den + r" by (simp add: q_def r_def)
  have r: "0 \<le> r" "r < den" using assms by (simp_all add: r_def)
  have den: "(0 :: rat) < of_int den" using assms by simp
  have quot: "(of_int num / of_int den :: rat) = of_int q + of_int r / of_int den"
    using den by (simp add: num field_simps)
  have frac: "(0 :: rat) \<le> of_int r / of_int den" "(of_int r / of_int den :: rat) < 1"
    using r den by simp_all
  consider "2 * r < den" | "den < 2 * r" | "2 * r = den" by linarith
  then show ?thesis
  proof cases
    case 1
    then have "(2 :: rat) * of_int r < of_int den"
      by (metis of_int_less_iff of_int_mult of_int_numeral)
    then have "(of_int r / of_int den :: rat) < 1 / 2" using den by (simp add: field_simps)
    moreover have "round_half_even num den = q"
      using 1 by (simp add: round_half_even_def q_def r_def)
    ultimately show ?thesis using frac by (simp add: quot)
  next
    case 2
    then have "(of_int den :: rat) < 2 * of_int r"
      by (metis of_int_less_iff of_int_mult of_int_numeral)
    then have "(1 / 2 :: rat) < of_int r / of_int den" using den by (simp add: field_simps)
    moreover have "round_half_even num den = q + 1"
      using 2 by (simp add: round_half_even_def q_def r_def)
    ultimately show ?thesis using frac by (simp add: quot)
  next
    case 3
    then have "(of_int den :: rat) = 2 * of_int r"
      by (metis of_int_mult of_int_numeral)
    then have half: "(of_int r / of_int den :: rat) = 1 / 2" using den by (simp add: field_simps)
    have e: "(of_int num / of_int den :: rat) = of_int q + 1 / 2"
      by (simp only: quot half)
    have "round_half_even num den = q \<or> round_half_even num den = q + 1"
      using 3 by (simp add: round_half_even_def q_def r_def Let_def)
    then show ?thesis
    proof
      assume "round_half_even num den = q"
      then show ?thesis unfolding e by simp
    next
      assume "round_half_even num den = q + 1"
      then show ?thesis unfolding e by simp
    qed
  qed
qed

lemma binade_lower:
  assumes "0 < num" and "0 < den"
  shows "(2 :: rat) powi binade num den \<le> of_int num / of_int den"
proof -
  define d where "d = int (bit_length (nat num)) - int (bit_length (nat den))"
  define ok where "ok \<longleftrightarrow> (if 0 \<le> d then den * 2 ^ nat d \<le> num else den \<le> num * 2 ^ nat (- d))"
  have bin: "binade num den = (if ok then d else d - 1)"
    by (simp add: binade_def d_def ok_def Let_def)
  have den: "(0 :: rat) < of_int den" using assms by simp
  show ?thesis
  proof (cases ok)
    case True
    have "(2 :: rat) powi d \<le> of_int num / of_int den"
    proof (cases "0 \<le> d")
      case nonneg: True
      then have "den * 2 ^ nat d \<le> num" using True by (simp add: ok_def)
      then have "(of_int (den * 2 ^ nat d) :: rat) \<le> of_int num" by (simp only: of_int_le_iff)
      then have "(of_int den :: rat) * 2 ^ nat d \<le> of_int num" by simp
      moreover have "(2 :: rat) powi d = 2 ^ nat d" using nonneg by (simp add: power_int_def)
      ultimately show ?thesis using den by (simp add: field_simps)
    next
      case neg: False
      then have "den \<le> num * 2 ^ nat (- d)" using True by (simp add: ok_def)
      then have "(of_int den :: rat) \<le> of_int (num * 2 ^ nat (- d))" by (simp only: of_int_le_iff)
      then have "(of_int den :: rat) \<le> of_int num * 2 ^ nat (- d)" by simp
      then have "(1 :: rat) / 2 ^ nat (- d) \<le> of_int num / of_int den"
        using den by (simp add: field_simps)
      moreover have "(2 :: rat) powi d = 1 / 2 ^ nat (- d)"
        using neg by (simp add: power_int_def field_simps)
      ultimately show ?thesis by (simp only:)
    qed
    then show ?thesis using True by (simp add: bin)
  next
    case False
    define a where "a = bit_length (nat num)"
    define b where "b = bit_length (nat den)"
    have "2 ^ (a - 1) \<le> nat num" "nat den < 2 ^ b"
      using bit_length_bounds [of "nat num"] bit_length_bounds [of "nat den"] assms
      by (simp_all add: a_def b_def)
    then have "int (2 ^ (a - 1)) \<le> num" "den < int (2 ^ b)"
      using assms by linarith+
    then have "(of_int (int (2 ^ (a - 1))) :: rat) \<le> of_int num"
      "(of_int den :: rat) < of_int (int (2 ^ b))"
      by (simp_all only: of_int_le_iff of_int_less_iff)
    then have lo: "(2 :: rat) ^ (a - 1) \<le> of_int num" and hi: "(of_int den :: rat) < 2 ^ b"
      by simp_all
    have apos: "0 < a"
      using assms by (subst a_def, subst bit_length.simps) simp
    have "d - 1 = int (a - 1) - int b"
      using apos unfolding d_def a_def b_def by linarith
    then have "(2 :: rat) powi (d - 1) = 2 powi (int (a - 1) - int b)"
      by (simp only:)
    also have "\<dots> = 2 ^ (a - 1) / 2 ^ b"
      by (simp add: power_int_diff)
    also have "\<dots> \<le> of_int num / 2 ^ b"
      using lo by (simp add: divide_right_mono)
    also have "\<dots> \<le> of_int num / of_int den"
      using hi den assms by (simp add: frac_le)
    finally show ?thesis using False by (simp add: bin)
  qed
qed

lemma scaled_round_error:
  fixes x :: rat
  assumes near: "\<bar>of_int m - x / 2 powi k\<bar> \<le> 1 / 2" and low: "2 powi (k + 52) \<le> x"
  shows "\<bar>of_int m * 2 powi k - x\<bar> \<le> x / 2 ^ 53"
proof -
  define s :: rat where "s = 2 powi k"
  have s: "0 < s" by (simp add: s_def)
  have "of_int m * s - x = s * (of_int m - x / s)"
    using s by (simp add: field_simps)
  then have "\<bar>of_int m * s - x\<bar> = s * \<bar>of_int m - x / s\<bar>"
    using s by (simp add: abs_mult)
  also have "\<dots> \<le> s * (1 / 2)"
    using near s unfolding s_def by (intro mult_left_mono) simp_all
  finally have a: "\<bar>of_int m * s - x\<bar> \<le> s / 2" by simp
  have "(2 :: rat) powi (k + 52) = s * 2 ^ 52"
    by (simp add: s_def power_int_add)
  then have "s * 2 ^ 52 \<le> x" using low by simp
  then have "s / 2 \<le> x / 2 ^ 53" by (simp add: field_simps)
  with a show ?thesis unfolding s_def by linarith
qed

lemma nearest_pos_error:
  assumes "0 < num" and "0 < den"
  shows "\<bar>dval (nearest_pos num den) - of_int num / of_int den\<bar> \<le> (of_int num / of_int den) / 2 ^ 53"
proof -
  define x :: rat where "x = of_int num / of_int den"
  define k where "k = binade num den - 52"
  have low: "2 powi (k + 52) \<le> x"
    using binade_lower [OF assms] by (simp add: k_def x_def)
  have den: "(0 :: rat) < of_int den" using assms by simp
  show ?thesis
  proof (cases "0 \<le> k")
    case True
    define m where "m = round_half_even num (den * 2 ^ nat k)"
    have np: "nearest_pos num den = (m, k)"
      using True by (simp add: nearest_pos_def k_def m_def Let_def)
    have "\<bar>of_int m - (of_int num / of_int (den * 2 ^ nat k) :: rat)\<bar> \<le> 1 / 2"
      unfolding m_def by (rule round_half_even_error) (use assms in simp)
    moreover have "(of_int num / of_int (den * 2 ^ nat k) :: rat) = x / 2 powi k"
      using True by (simp add: x_def power_int_def)
    ultimately have "\<bar>of_int m - x / 2 powi k\<bar> \<le> 1 / 2" by simp
    then have "\<bar>of_int m * 2 powi k - x\<bar> \<le> x / 2 ^ 53"
      using low by (rule scaled_round_error)
    then show ?thesis by (simp add: np dval_def x_def)
  next
    case False
    define m where "m = round_half_even (num * 2 ^ nat (- k)) den"
    have np: "nearest_pos num den = (m, k)"
      using False by (simp add: nearest_pos_def k_def m_def Let_def)
    have "\<bar>of_int m - (of_int (num * 2 ^ nat (- k)) / of_int den :: rat)\<bar> \<le> 1 / 2"
      unfolding m_def by (rule round_half_even_error) (use assms in simp)
    moreover have "(of_int (num * 2 ^ nat (- k)) / of_int den :: rat) = x / 2 powi k"
      using False by (simp add: x_def power_int_def field_simps)
    ultimately have "\<bar>of_int m - x / 2 powi k\<bar> \<le> 1 / 2" by simp
    then have "\<bar>of_int m * 2 powi k - x\<bar> \<le> x / 2 ^ 53"
      using low by (rule scaled_round_error)
    then show ?thesis by (simp add: np dval_def x_def)
  qed
qed

lemma nearest_double_error:
  assumes "0 \<le> num" and "0 < den"
  shows "\<bar>dval (nearest_double num den) - of_int num / of_int den\<bar>
           \<le> (of_int num / of_int den) / 2 ^ 53"
proof (cases "num = 0")
  case True
  then show ?thesis by (simp add: nearest_double_def dval_def)
next
  case False
  then have "0 < num" using assms by simp
  then show ?thesis
    using nearest_pos_error [OF _ assms(2)] by (simp add: nearest_double_def)
qed

lemma double_times_error:
  assumes "0 \<le> fst x" and "0 \<le> n"
  shows "\<bar>dval (double_times x n) - dval x * of_int n\<bar> \<le> (dval x * of_int n) / 2 ^ 53"
proof -
  obtain m e where x: "x = (m, e)" by (cases x)
  have m: "0 \<le> m" using assms x by simp
  show ?thesis
  proof (cases "0 \<le> e")
    case True
    have eq: "(of_int (m * n * 2 ^ nat e) / of_int 1 :: rat) = dval x * of_int n"
      using True by (simp add: x dval_def power_int_def)
    have dt: "double_times x n = nearest_double (m * n * 2 ^ nat e) 1"
      using True by (simp add: x double_times_def)
    have "0 \<le> m * n * 2 ^ nat e" using m assms by simp
    then have "\<bar>dval (nearest_double (m * n * 2 ^ nat e) 1)
                 - of_int (m * n * 2 ^ nat e) / of_int 1\<bar>
               \<le> (of_int (m * n * 2 ^ nat e) / of_int 1) / 2 ^ 53"
      by (rule nearest_double_error) simp
    then show ?thesis unfolding dt eq .
  next
    case False
    have eq: "(of_int (m * n) / of_int (2 ^ nat (- e)) :: rat) = dval x * of_int n"
      using False by (simp add: x dval_def power_int_def field_simps)
    have dt: "double_times x n = nearest_double (m * n) (2 ^ nat (- e))"
      using False by (simp add: x double_times_def)
    have "0 \<le> m * n" using m assms by simp
    then have "\<bar>dval (nearest_double (m * n) (2 ^ nat (- e)))
                 - of_int (m * n) / of_int (2 ^ nat (- e))\<bar>
               \<le> (of_int (m * n) / of_int (2 ^ nat (- e))) / 2 ^ 53"
      by (rule nearest_double_error) simp
    then show ?thesis unfolding dt eq .
  qed
qed

lemma js_round_floor: "js_round x = \<lfloor>dval x + 1 / 2\<rfloor>"
proof -
  obtain m e where x: "x = (m, e)" by (cases x)
  show ?thesis
  proof (cases "0 \<le> e")
    case True
    have "dval x = of_int (m * 2 ^ nat e)"
      using True by (simp add: x dval_def power_int_def)
    then have "\<lfloor>dval x + 1 / 2\<rfloor> = m * 2 ^ nat e"
      by (intro floor_unique) simp_all
    then show ?thesis using True by (simp add: x js_round_def)
  next
    case False
    define k where "k = nat (- e)"
    have "dval x = of_int m / 2 ^ k"
      using False by (simp add: x dval_def power_int_def k_def field_simps)
    then have "dval x + 1 / 2 = of_int (2 * m + 2 ^ k) / of_int (2 ^ (k + 1))"
      by (simp add: field_simps)
    then have "\<lfloor>dval x + 1 / 2\<rfloor> = (2 * m + 2 ^ k) div 2 ^ (k + 1)"
      by (simp only: floor_divide_of_int_eq)
    then show ?thesis using False by (simp add: x js_round_def k_def)
  qed
qed

text \<open>
  Before \<^verbatim>\<open>Math.round\<close> is applied, the percentage computed in doubles is within
  \<open>300 / 2\<^sup>5\<^sup>3\<close> of the exact percentage.
\<close>

lemma pct_double_error:
  assumes "0 \<le> c" and "0 \<le> m" and "c + m \<noteq> 0"
  shows "\<bar>dval (double_times (nearest_double c (c + m)) 100)
            - of_int c / of_int (c + m) * 100\<bar> \<le> 300 / 2 ^ 53"
proof -
  define t where "t = c + m"
  define q :: rat where "q = of_int c / of_int t"
  define y1 where "y1 = dval (nearest_double c t)"
  define y2 where "y2 = dval (double_times (nearest_double c t) 100)"
  have t: "0 < t" using assms by (simp add: t_def)
  have q: "0 \<le> q" "q \<le> 1"
    using assms t by (simp_all add: q_def t_def)
  have e1: "\<bar>y1 - q\<bar> \<le> q / 2 ^ 53"
    unfolding y1_def q_def using assms(1) t by (rule nearest_double_error)
  have "0 \<le> fst (nearest_double c t)"
    using assms(1) t by (rule nearest_double_nonneg)
  then have e2: "\<bar>y2 - y1 * 100\<bar> \<le> (y1 * 100) / 2 ^ 53"
    unfolding y2_def y1_def using double_times_error [of "nearest_double c t" 100] by simp
  define eps :: rat where "eps = 1 / 2 ^ 53"
  have eps: "0 \<le> eps" by (simp add: eps_def)
  have small: "q / 2 ^ 53 \<le> q"
    using q by (simp add: field_simps)
  have y1: "y1 \<le> 2" "0 \<le> y1" using e1 q small by linarith+
  have "\<bar>y2 - q * 100\<bar> = \<bar>(y2 - y1 * 100) + 100 * (y1 - q)\<bar>"
    by (simp add: algebra_simps)
  also have "\<dots> \<le> \<bar>y2 - y1 * 100\<bar> + \<bar>100 * (y1 - q)\<bar>"
    by (rule abs_triangle_ineq)
  also have "\<dots> = \<bar>y2 - y1 * 100\<bar> + 100 * \<bar>y1 - q\<bar>"
    by (simp only: abs_mult abs_numeral)
  also have "\<dots> \<le> 300 * eps"
  proof -
    have a: "\<bar>y2 - y1 * 100\<bar> \<le> 200 * eps"
    proof -
      have "(y1 * 100) / 2 ^ 53 = (100 * eps) * y1" by (simp add: eps_def)
      also have "\<dots> \<le> (100 * eps) * 2"
        using y1(1) eps by (intro mult_left_mono) simp_all
      finally show ?thesis using e2 by simp
    qed
    have b: "\<bar>y1 - q\<bar> \<le> eps"
    proof -
      have "q / 2 ^ 53 = eps * q" by (simp add: eps_def)
      also have "\<dots> \<le> eps * 1"
        using q(2) eps by (intro mult_left_mono) simp_all
      finally show ?thesis using e1 by simp
    qed
    define A where "A = \<bar>y2 - y1 * 100\<bar>"
    define B where "B = \<bar>y1 - q\<bar>"
    have "A \<le> 200 * eps" "B \<le> eps" using a b by (simp_all add: A_def B_def)
    then have "A + 100 * B \<le> 300 * eps" by linarith
    then show ?thesis by (simp only: A_def B_def)
  qed
  also have "\<dots> = 300 / 2 ^ 53" by (simp add: eps_def)
  finally show ?thesis unfolding y2_def q_def t_def .
qed

section \<open>The range compressor\<close>

lemma compress_loop_runs:
  "compress_loop s e out vs = out @ map (\<lambda>r. range_token (fst r) (snd r)) (runs_loop s e vs)"
  by (induction vs arbitrary: s e out) simp_all

lemma compressLines_runs_of: "compressLines xs = render_runs (runs_of xs)"
  by (cases xs) (simp_all add: compressLines_def render_runs_def runs_of_def compress_loop_runs)

lemma runs_loop_hd: "\<exists>e' rs. runs_loop s e vs = (s, e') # rs"
  by (induction vs arbitrary: e) simp_all

lemma runs_loop_nonempty: "list_all (\<lambda>r. fst r \<le> snd r) (runs_loop s e vs)" if "s \<le> e"
  using that by (induction vs arbitrary: s e) simp_all

lemma runs_loop_concat:
  "s \<le> e \<Longrightarrow> concat (map (\<lambda>r. [fst r..snd r]) (runs_loop s e vs)) = [s..e] @ vs"
proof (induction vs arbitrary: s e)
  case Nil
  then show ?case by simp
next
  case (Cons v vs)
  show ?case
  proof (cases "v = e + 1")
    case True
    have "[s..e + 1] = [s..e] @ [e + 1]"
      using Cons.prems by (simp add: upto_rec2)
    with True Cons show ?thesis by simp
  next
    case False
    with Cons show ?thesis by simp
  qed
qed

lemma runs_loop_maximal: "runs_maximal (runs_loop s e vs)"
proof (induction vs arbitrary: s e)
  case Nil
  then show ?case by simp
next
  case (Cons v vs)
  show ?case
  proof (cases "v = e + 1")
    case True
    with Cons show ?thesis by simp
  next
    case False
    obtain e' rs where "runs_loop v v vs = (v, e') # rs"
      using runs_loop_hd by blast
    with False Cons.IH [of v v] show ?thesis by simp
  qed
qed

lemma runs_of_decomposition: "run_decomposition xs (runs_of xs)"
proof (cases xs)
  case Nil
  then show ?thesis by (simp add: run_decomposition_def runs_of_def)
next
  case (Cons x rest)
  then show ?thesis
    by (simp add: run_decomposition_def runs_of_def runs_loop_nonempty runs_loop_concat
        runs_loop_maximal)
qed

text \<open>The loop reads a stretch of consecutive numbers into the run it is in.\<close>

lemma runs_loop_stretch:
  "e \<le> b \<Longrightarrow> runs_loop s e ([e + 1..b] @ ys) = runs_loop s b ys"
proof (induction "nat (b - e)" arbitrary: e)
  case 0
  then have "e = b" by simp
  then show ?case by simp
next
  case (Suc n)
  then have lt: "e < b" by linarith
  then have "[e + 1..b] = (e + 1) # [e + 1 + 1..b]"
    by (simp add: upto_rec1)
  moreover have "runs_loop s (e + 1) ([e + 1 + 1..b] @ ys) = runs_loop s b ys"
    using Suc.hyps(1) [of "e + 1"] Suc.hyps(2) lt by simp
  ultimately show ?case by simp
qed

text \<open>A list has one decomposition into maximal runs only: the one the loop reads.\<close>

lemma run_decomposition_unique:
  "run_decomposition xs rs \<Longrightarrow> rs = runs_of xs"
proof (induction rs arbitrary: xs)
  case Nil
  then show ?case by (simp add: run_decomposition_def runs_of_def)
next
  case (Cons r rs)
  obtain a b where r: "r = (a, b)" by (cases r)
  define ys where "ys = concat (map (\<lambda>r. [fst r..snd r]) rs)"
  from Cons.prems r have ab: "a \<le> b" and xs: "xs = [a..b] @ ys"
    and tail: "run_decomposition ys rs" and mx: "runs_maximal ((a, b) # rs)"
    by (auto simp: run_decomposition_def ys_def elim: runs_maximal.elims)
  have rs: "rs = runs_of ys" using Cons.IH tail by simp
  have "[a..b] = a # [a + 1..b]" using ab by (simp add: upto_rec1)
  then have "runs_of xs = runs_loop a a ([a + 1..b] @ ys)"
    by (simp add: xs runs_of_def)
  also have "\<dots> = runs_loop a b ys"
    using ab by (rule runs_loop_stretch)
  also have "\<dots> = (a, b) # rs"
  proof (cases rs)
    case Nil
    then show ?thesis by (simp add: ys_def)
  next
    case (Cons r' rs')
    obtain c d where r': "r' = (c, d)" by (cases r')
    from tail Cons r' have cd: "c \<le> d" by (simp add: run_decomposition_def)
    then have "[c..d] = c # [c + 1..d]" by (simp add: upto_rec1)
    then have ys_eq: "ys = c # ([c + 1..d] @ concat (map (\<lambda>r. [fst r..snd r]) rs'))"
      by (simp add: ys_def Cons r')
    from mx Cons r' have "c \<noteq> b + 1" by simp
    then have "runs_loop a b ys = (a, b) # runs_of ys"
      by (simp add: ys_eq runs_of_def)
    with rs show ?thesis by simp
  qed
  finally show ?case by (simp add: r)
qed

text \<open>
  Claim C4. \<^verbatim>\<open>compressLines\<close> returns the comma-separated tokens of the maximal runs
  of consecutive integers of its input, in input order, a run of one number written as
  the number and a longer run as \<open>start-end\<close>: the input has a decomposition into
  maximal runs, and the output is the rendering of any such decomposition (there is
  one only). This holds for every list, so for every ascending list of distinct
  integers. The empty list gives the empty string, \<open>[5]\<close> gives \<open>5\<close> and
  \<open>[1,2,3,7,9,10]\<close> gives \<open>1-3,7,9-10\<close>.
\<close>

theorem compressLines_maximal_runs:
  "(\<exists>rs. run_decomposition xs rs) \<and>
   (\<forall>rs. run_decomposition xs rs \<longrightarrow> compressLines xs = render_runs rs) \<and>
   compressLines [] = [] \<and>
   compressLines [5] = ''5'' \<and>
   compressLines [1, 2, 3, 7, 9, 10] = ''1-3,7,9-10''"
proof -
  have "\<exists>rs. run_decomposition xs rs"
    using runs_of_decomposition by blast
  moreover have "\<forall>rs. run_decomposition xs rs \<longrightarrow> compressLines xs = render_runs rs"
    using run_decomposition_unique compressLines_runs_of by auto
  moreover have "compressLines [] = []"
    by (simp add: compressLines_def)
  moreover have "compressLines [5] = ''5''"
    by (simp add: compressLines_def range_token_def num_str_def nat_digits.simps digit_char_def)
  moreover have "compressLines [1, 2, 3, 7, 9, 10] = ''1-3,7,9-10''"
    by (simp add: compressLines_def range_token_def num_str_def nat_digits.simps digit_char_def)
  ultimately show ?thesis by blast
qed

theorem compressLines_maximal_runs_witness:
  "run_decomposition [10, 11, 15] [(10, 11), (15, 15)] \<and>
   compressLines [10, 11, 15] = render_runs [(10, 11), (15, 15)] \<and>
   render_runs [(10, 11), (15, 15)] = ''10-11,15''"
proof -
  have d: "run_decomposition [10, 11, 15] [(10, 11), (15, 15)]"
    by (simp add: run_decomposition_def upto_rec1)
  have "compressLines [10, 11, 15] = render_runs [(10, 11), (15, 15)]"
    using compressLines_maximal_runs [of "[10, 11, 15]"] d by blast
  moreover have "render_runs [(10, 11), (15, 15)] = ''10-11,15''"
    by (simp add: render_runs_def range_token_def num_str_def nat_digits.simps digit_char_def)
  ultimately show ?thesis using d by blast
qed

section \<open>Exit codes\<close>

lemma cmdCoverage_codes: "cmdCoverage r minLines minFuncs \<in> {0, 1, 2}"
  by (simp add: cmdCoverage_def Let_def split: option.splits)

lemma threshold_pct_40_60: "threshold_pct (Some 40) (Some 60) = 40"
  by (simp add: threshold_pct_def nullish_def double_eval)

lemma cmdCoverage_root_40_60: "cmdCoverage (Some root_40_60) (Some 50) None = 2"
  by (simp add: cmdCoverage_def root_40_60_def threshold_pct_40_60)

text \<open>
  Claim C2 as stated fails: the final code is not the maximum of the two codes. A
  Gradle run that exits with 127 followed by a lines threshold that fails (40 per
  cent under a minimum of 50, code 2) ends with code 2, and the maximum is 127.
\<close>

theorem cmdTest_not_maximum:
  "cmdTest 127 True (cmdCoverage (Some root_40_60) (Some 50) None)
     \<noteq> max 127 (cmdCoverage (Some root_40_60) (Some 50) None)"
  by (simp add: cmdCoverage_root_40_60 cmdTest_def)

text \<open>
  Claim C2, amended. With coverage enabled the final code is the code of the
  coverage command when that is not zero, and the test run's own code otherwise. So
  the final code is not zero as soon as one of the two is not zero; it is the maximum
  of the two whenever the test run's code is not above a non-zero coverage code (or
  the coverage code is zero); and a test run that exits with 0 followed by a lines
  percentage strictly below \<open>minLines\<close> ends with the code 2.
\<close>

theorem cmdTest_final_code:
  "cmdTest testCode True covCode = (if covCode \<noteq> 0 then covCode else testCode) \<and>
   (cmdTest testCode True covCode \<noteq> 0 \<longleftrightarrow> testCode \<noteq> 0 \<or> covCode \<noteq> 0) \<and>
   (0 \<le> testCode \<longrightarrow> testCode \<le> covCode \<or> covCode = 0 \<longrightarrow>
      cmdTest testCode True covCode = max testCode covCode) \<and>
   (of_int (threshold_pct (cov_linesCovered r) (cov_linesMissed r)) < minLines \<longrightarrow>
      cmdCoverage (Some r) (Some minLines) minFuncs = 2 \<and>
      cmdTest 0 True (cmdCoverage (Some r) (Some minLines) minFuncs) = 2)"
proof -
  have final: "cmdTest testCode True covCode = (if covCode \<noteq> 0 then covCode else testCode)"
    by (simp add: cmdTest_def)
  have nonzero: "cmdTest testCode True covCode \<noteq> 0 \<longleftrightarrow> testCode \<noteq> 0 \<or> covCode \<noteq> 0"
    by (simp add: cmdTest_def)
  have maxi: "0 \<le> testCode \<longrightarrow> testCode \<le> covCode \<or> covCode = 0 \<longrightarrow>
      cmdTest testCode True covCode = max testCode covCode"
    by (auto simp: cmdTest_def)
  have below: "cmdCoverage (Some r) (Some minLines) minFuncs = 2"
    if "of_int (threshold_pct (cov_linesCovered r) (cov_linesMissed r)) < minLines"
    using that by (simp add: cmdCoverage_def Let_def split: option.splits)
  then have "of_int (threshold_pct (cov_linesCovered r) (cov_linesMissed r)) < minLines \<longrightarrow>
      cmdCoverage (Some r) (Some minLines) minFuncs = 2 \<and>
      cmdTest 0 True (cmdCoverage (Some r) (Some minLines) minFuncs) = 2"
    by (simp add: cmdTest_def)
  with final nonzero maxi show ?thesis by blast
qed

theorem cmdTest_final_code_witness:
  "of_int (threshold_pct (cov_linesCovered root_40_60) (cov_linesMissed root_40_60)) < (50 :: rat) \<and>
   cmdCoverage (Some root_40_60) (Some 50) None = 2 \<and>
   cmdTest 0 True (cmdCoverage (Some root_40_60) (Some 50) None) = 2 \<and>
   cmdTest 1 True 2 = max 1 2"
proof -
  have lt: "of_int (threshold_pct (cov_linesCovered root_40_60) (cov_linesMissed root_40_60)) < (50 :: rat)"
    by (simp add: root_40_60_def threshold_pct_40_60)
  have "cmdCoverage (Some root_40_60) (Some 50) None = 2 \<and>
        cmdTest 0 True (cmdCoverage (Some root_40_60) (Some 50) None) = 2"
    using cmdTest_final_code [of 0 0 root_40_60 50 None] lt by blast
  moreover have "cmdTest 1 True 2 = max 1 2"
    using cmdTest_final_code [of 1 2 root_40_60 50 None] by simp
  ultimately show ?thesis using lt by blast
qed

section \<open>Durations of test cases\<close>

text \<open>
  Claim C9 as stated fails: a test case whose \<^verbatim>\<open>time\<close> attribute is \<open>-1.5\<close> gets the
  duration \<open>-1500\<close> ms. The builder rounds the attribute times 1000 and clamps
  nothing.
\<close>

theorem caseNode_negative_duration:
  "tc_durationMs (caseNode_of case_negative_time) = - 1500"
  by (simp add: caseNode_of_def case_negative_time_def timeSec_of_def double_eval)

text \<open>
  Claim C9, amended. Every test case entry the builder constructs has a non-negative
  duration when the \<^verbatim>\<open>time\<close> attribute of the decoded record is missing, is not a
  number, or is a number that is not negative.
\<close>

theorem caseNode_duration_nonneg:
  "(case a_time tc of None \<Rightarrow> True | Some t \<Rightarrow> 0 \<le> fst t) \<Longrightarrow>
   0 \<le> tc_durationMs (caseNode_of tc)"
proof -
  assume time: "case a_time tc of None \<Rightarrow> True | Some t \<Rightarrow> 0 \<le> fst t"
  then have "0 \<le> fst (timeSec_of tc)"
    by (auto simp: timeSec_of_def split: option.splits)
  then have "0 \<le> js_round (double_times (timeSec_of tc) 1000)"
    by (intro js_round_nonneg double_times_nonneg) simp_all
  then show ?thesis by (simp add: caseNode_of_def)
qed

theorem caseNode_duration_nonneg_witness:
  "(case a_time case_passed of None \<Rightarrow> True | Some t \<Rightarrow> 0 \<le> fst t) \<and>
   0 \<le> tc_durationMs (caseNode_of case_passed) \<and>
   tc_durationMs (caseNode_of case_passed) = 250"
proof -
  have t: "case a_time case_passed of None \<Rightarrow> True | Some t \<Rightarrow> 0 \<le> fst t"
    by (simp add: case_passed_def)
  have "tc_durationMs (caseNode_of case_passed) = 250"
    by (simp add: caseNode_of_def case_passed_def timeSec_of_def double_eval)
  with t caseNode_duration_nonneg [OF t] show ?thesis by blast
qed

section \<open>Running the aggregation again\<close>




section \<open>The coverage tree: building and aggregation\<close>

lemma cov_all_nodes_children:
  "cov_all_nodes P node \<Longrightarrow> kc \<in> set (cov_children node) \<Longrightarrow> cov_all_nodes P (snd kc)"
  by (cases node) (auto simp: list_all_iff)

lemma cov_all_nodes_node: "cov_all_nodes P node \<Longrightarrow> P node"
  by (cases node) simp

text \<open>
  The walk keeps a property of the files of every node, when the nodes it creates
  have it and what is done at the end of the walk keeps it.
\<close>

lemma walk_parts_all_files:
  assumes new: "Q []"
    and at_end: "\<And>node. cov_all_nodes (\<lambda>n. Q (cov_sourcefile n)) node \<Longrightarrow>
                   cov_all_nodes (\<lambda>n. Q (cov_sourcefile n)) (at_end node)"
  shows "cov_all_nodes (\<lambda>n. Q (cov_sourcefile n)) cur \<Longrightarrow>
         cov_all_nodes (\<lambda>n. Q (cov_sourcefile n)) (walk_parts parts path at_end cur)"
proof (induction parts arbitrary: path cur)
  case Nil
  then show ?case by (simp add: at_end)
next
  case (Cons part rest)
  obtain n fn sfs ch lc lm fc fm where cur: "cur = PackageNode n fn sfs ch lc lm fc fm"
    by (cases cur)
  define path' where "path' = (if path \<noteq> [] then path @ ''/'' @ part else part)"
  define children where
    "children = (if has_key part ch then ch else ch @ [(part, new_PackageNode part path')])"
  have "list_all (\<lambda>kc. cov_all_nodes (\<lambda>n. Q (cov_sourcefile n)) (snd kc)) children"
    using Cons.prems new by (simp add: cur children_def new_PackageNode_def)
  then have "list_all (\<lambda>kc. cov_all_nodes (\<lambda>n. Q (cov_sourcefile n)) (snd kc))
               (modify_key part (walk_parts rest path' at_end) children)"
    by (rule list_all_modify_key) (rule Cons.IH)
  moreover have "Q sfs" using Cons.prems by (simp add: cur)
  moreover have "walk_parts (part # rest) path at_end cur =
      PackageNode n fn sfs (modify_key part (walk_parts rest path' at_end) children) lc lm fc fm"
    by (simp add: cur Let_def path'_def children_def)
  ultimately show ?case by simp
qed

lemma list_all_js_sort: "list_all P (js_sort cmp xs) = list_all P xs"
  by (simp add: list_all_iff set_js_sort)

lemma aggregateCoverage_all_files:
  "cov_all_nodes (\<lambda>n. Q (cov_sourcefile n)) node \<Longrightarrow>
   cov_all_nodes (\<lambda>n. Q (cov_sourcefile n)) (aggregateCoverage cmp node)"
proof (induction cmp node rule: aggregateCoverage.induct)
  case (1 cmp n fn sfs ch lc0 lm0 fc0 fm0)
  have "cov_all_nodes (\<lambda>n. Q (cov_sourcefile n)) (aggregateCoverage cmp (snd kc))"
    if "kc \<in> set ch" for kc
    using that "1.IH" [OF that] "1.prems" by (auto simp: list_all_iff)
  then show ?case
    using "1.prems" by (auto simp: Let_def list_all_iff set_js_sort)
qed

text \<open>
  The leaves a package brings have their uncovered lines in ascending order, when the
  line entries that count have a number.
\<close>

lemma insert_cmp_map:
  assumes "\<And>a b. cmp' (f a) (f b) = cmp a b"
  shows "insert_cmp cmp' (f x) (map f ys) = map f (insert_cmp cmp x ys)"
  by (induction ys) (simp_all add: assms)

lemma js_sort_map:
  assumes "\<And>a b. cmp' (f a) (f b) = cmp a b"
  shows "js_sort cmp' (map f xs) = map f (js_sort cmp xs)"
proof -
  have ins: "\<And>x ys. insert_cmp cmp' (f x) (map f ys) = map f (insert_cmp cmp x ys)"
    by (rule insert_cmp_map) (rule assms)
  show ?thesis unfolding js_sort_def by (induction xs) (simp_all add: ins)
qed

lemma lines_ascending_Some: "lines_ascending (map Some ys) \<longleftrightarrow> sorted ys"
  by (simp add: lines_ascending_def list_all_iff sorted_wrt_map nr_le_def)

lemma numbered_as_Some:
  "list_all (\<lambda>x. x \<noteq> None) xs \<Longrightarrow> \<exists>ys. xs = map Some ys"
proof (induction xs)
  case Nil
  then show ?case by simp
next
  case (Cons x xs)
  then obtain y ys where "x = Some y" "xs = map Some ys" by auto
  then have "x # xs = map Some (y # ys)" by simp
  then show ?case by (rule exI)
qed

lemma uncoveredLines_of_ascending:
  assumes "list_all (\<lambda>l. l_nr l \<noteq> None) (filter line_uncovered lineEntries)"
  shows "lines_ascending (uncoveredLines_of lineEntries)"
proof -
  have "list_all (\<lambda>x. x \<noteq> None) (map l_nr (filter line_uncovered lineEntries))"
    using assms by (simp add: list_all_iff)
  then obtain ys where ys: "map l_nr (filter line_uncovered lineEntries) = map Some ys"
    using numbered_as_Some by blast
  have "js_sort nr_compare (map Some ys) = map Some (js_sort (\<lambda>a b. a - b) ys)"
    by (rule js_sort_map) (simp add: nr_compare_def)
  moreover have "sorted_wrt (\<lambda>a b :: int. a - b \<le> 0) (js_sort (\<lambda>a b. a - b) ys)"
    by (rule sorted_js_sort) (rule consistent_cmp_minus)
  then have "sorted (js_sort (\<lambda>a b. a - b) ys)" by simp
  ultimately show ?thesis
    by (simp add: uncoveredLines_of_def ys lines_ascending_Some)
qed

lemma package_leaves_sorted:
  assumes "numbered_lines pkg"
  shows "list_all (\<lambda>sf. lines_ascending (sf_uncoveredLines sf)) (package_leaves pkg)"
proof (cases "jp_sourcefile pkg = []")
  case True
  then show ?thesis
    by (auto simp: package_leaves_def list_all_iff grouped_leaf_def lines_ascending_def
        split: prod.splits)
next
  case False
  have "lines_ascending (uncoveredLines_of (jsf_line sf))"
    if "sf \<in> set (jp_sourcefile pkg)" for sf
    using assms that by (intro uncoveredLines_of_ascending) (simp add: numbered_lines_def list_all_iff)
  then show ?thesis
    using False by (simp add: package_leaves_def list_all_iff sourcefile_leaf_def Let_def)
qed

lemma foldl_add_package_all_files:
  assumes new: "Q []"
    and step: "\<And>pkg sfs. pkg \<in> set pkgs \<Longrightarrow> Q sfs \<Longrightarrow>
                 Q (js_sort (\<lambda>a b. cmp (sf_name a) (sf_name b)) (sfs @ package_leaves pkg))"
  shows "cov_all_nodes (\<lambda>n. Q (cov_sourcefile n)) rt \<Longrightarrow>
         cov_all_nodes (\<lambda>n. Q (cov_sourcefile n)) (foldl (add_package cmp) rt pkgs)"
  using step
proof (induction pkgs arbitrary: rt)
  case Nil
  then show ?case by simp
next
  case (Cons pkg pkgs)
  have "cov_all_nodes (\<lambda>n. Q (cov_sourcefile n))
          (walk_parts (package_parts pkg) [] (attach_leaves cmp pkg) rt)"
  proof (rule walk_parts_all_files [where Q = Q])
    show "Q []" by (rule new)
  next
    fix node
    assume "cov_all_nodes (\<lambda>n. Q (cov_sourcefile n)) node"
    moreover have "Q (js_sort (\<lambda>a b. cmp (sf_name a) (sf_name b)) (sfs @ package_leaves pkg))"
      if "Q sfs" for sfs
      using that Cons.prems(2) [of pkg sfs] by simp
    ultimately show "cov_all_nodes (\<lambda>n. Q (cov_sourcefile n)) (attach_leaves cmp pkg node)"
      by (cases node) (simp add: attach_leaves_def)
  next
    show "cov_all_nodes (\<lambda>n. Q (cov_sourcefile n)) rt" by (rule Cons.prems(1))
  qed
  then have "cov_all_nodes (\<lambda>n. Q (cov_sourcefile n)) (add_package cmp rt pkg)"
    by (simp add: add_package_def)
  then show ?case using Cons by simp
qed

lemma cov_root_all_files: "Q [] \<Longrightarrow>
  cov_all_nodes (\<lambda>n. Q (cov_sourcefile n)) (PackageNode ''All files'' [] [] [] None None None None)"
  by simp

text \<open>Aggregation establishes the invariant, whatever totals the nodes held before.\<close>

lemma aggregateCoverage_aggregated: "cov_aggregated (aggregateCoverage cmp node)"
proof (induction cmp node rule: aggregateCoverage.induct)
  case (1 cmp n fn sfs ch lc0 lm0 fc0 fm0)
  have "cov_aggregated (aggregateCoverage cmp (snd kc))" if "kc \<in> set ch" for kc
    using that by (rule "1.IH")
  then show ?case
    by (auto simp: Let_def foldl_plus_sum_list sum_list_js_sort list_all_iff set_js_sort)
qed

text \<open>Aggregation leaves the children of every node sorted by name.\<close>

lemma aggregateCoverage_sorted:
  "consistent_cmp cmp \<Longrightarrow> cov_all_nodes (children_sorted cmp) (aggregateCoverage cmp node)"
proof (induction cmp node rule: aggregateCoverage.induct)
  case (1 cmp n fn sfs ch lc0 lm0 fc0 fm0)
  have kids: "cov_all_nodes (children_sorted cmp) (aggregateCoverage cmp (snd kc))"
    if "kc \<in> set ch" for kc
    using that "1.IH" "1.prems" by blast
  have "sorted_wrt (\<lambda>a b. cmp (fst a) (fst b) \<le> 0) (js_sort (\<lambda>a b. cmp (fst a) (fst b)) xs)"
    for xs :: "(string \<times> PackageNode) list"
    by (rule sorted_js_sort [OF consistent_cmp_on_keys [OF "1.prems"]])
  then have here: "children_sorted cmp
      (PackageNode n fn sfs (js_sort (\<lambda>a b. cmp (fst a) (fst b)) xs) lc lm fc fm)"
    for xs lc lm fc fm
    by (simp add: children_sorted_def)
  show ?case
    using kids here by (auto simp: Let_def list_all_iff set_js_sort)
qed

section \<open>The outcome tree: building and aggregation\<close>

lemma foldl_bump_passed:
  "passed (foldl (\<lambda>cnt c. bump (tc_status c) cnt) c0 cases) = passed c0 + count_status Passed cases"
  by (induction cases arbitrary: c0) (auto simp: count_status_def bump_def split: TestStatus.splits)

lemma foldl_bump_failed:
  "failed (foldl (\<lambda>cnt c. bump (tc_status c) cnt) c0 cases) = failed c0 + count_status Failed cases"
  by (induction cases arbitrary: c0) (auto simp: count_status_def bump_def split: TestStatus.splits)

lemma foldl_bump_skipped:
  "skipped (foldl (\<lambda>cnt c. bump (tc_status c) cnt) c0 cases) = skipped c0 + count_status Skipped cases"
  by (induction cases arbitrary: c0) (auto simp: count_status_def bump_def split: TestStatus.splits)

lemma aggregate_class_aggregated: "class_aggregated (aggregate_class cls)"
  by (simp add: class_aggregated_def aggregate_class_def Let_def foldl_bump_passed
      foldl_bump_failed foldl_bump_skipped foldl_plus_sum_list zero_counts_def)

lemma foldl_add_counts_passed:
  "passed (foldl (\<lambda>c x. add_counts c (f x)) c0 xs) = passed c0 + sum_list (map (\<lambda>x. passed (f x)) xs)"
  by (induction xs arbitrary: c0) (simp_all add: add_counts_def)

lemma foldl_add_counts_failed:
  "failed (foldl (\<lambda>c x. add_counts c (f x)) c0 xs) = failed c0 + sum_list (map (\<lambda>x. failed (f x)) xs)"
  by (induction xs arbitrary: c0) (simp_all add: add_counts_def)

lemma foldl_add_counts_skipped:
  "skipped (foldl (\<lambda>c x. add_counts c (f x)) c0 xs) = skipped c0 + sum_list (map (\<lambda>x. skipped (f x)) xs)"
  by (induction xs arbitrary: c0) (simp_all add: add_counts_def)

text \<open>
  What \<^verbatim>\<open>aggregate\<close> leaves in a node: the totals the node held before, plus the sum
  over its classes, plus the sum over its children.
\<close>

lemma aggregate_node:
  "aggregate (TestPackageNode n fn ch cl cnt dur) = TestPackageNode n' fn' ch' cl' cnt' dur' \<Longrightarrow>
   ch' = map (\<lambda>kc. (fst kc, aggregate (snd kc))) ch \<and>
   cl' = map (\<lambda>kc. (fst kc, aggregate_class (snd kc))) cl \<and>
   passed cnt' = passed cnt + sum_list (map (\<lambda>kc. passed (cls_counts (snd kc))) cl')
                 + sum_list (map (\<lambda>kc. passed (pkg_counts (snd kc))) ch') \<and>
   failed cnt' = failed cnt + sum_list (map (\<lambda>kc. failed (cls_counts (snd kc))) cl')
                 + sum_list (map (\<lambda>kc. failed (pkg_counts (snd kc))) ch') \<and>
   skipped cnt' = skipped cnt + sum_list (map (\<lambda>kc. skipped (cls_counts (snd kc))) cl')
                  + sum_list (map (\<lambda>kc. skipped (pkg_counts (snd kc))) ch') \<and>
   dur' = dur + sum_list (map (\<lambda>kc. cls_durationMs (snd kc)) cl')
          + sum_list (map (\<lambda>kc. pkg_durationMs (snd kc)) ch')"
  by (auto simp: Let_def foldl_plus_sum_list foldl_add_counts_passed foldl_add_counts_failed
      foldl_add_counts_skipped)

lemma fresh_node_Node:
  "fresh_node (TestPackageNode n fn ch cl cnt dur) \<longleftrightarrow> cnt = zero_counts \<and> dur = 0"
  by (simp add: fresh_node_def)

text \<open>On a tree whose nodes hold no totals yet, aggregation establishes the invariant.\<close>

lemma aggregate_fresh: "pkg_all_nodes fresh_node node \<Longrightarrow> aggregated (aggregate node)"
proof (induction node rule: aggregate.induct)
  case (1 n fn ch cl cnt dur)
  obtain n' fn' ch' cl' cnt' dur' where
    res: "aggregate (TestPackageNode n fn ch cl cnt dur) = TestPackageNode n' fn' ch' cl' cnt' dur'"
    by (cases "aggregate (TestPackageNode n fn ch cl cnt dur)")
  note parts = aggregate_node [OF res]
  have zero: "passed cnt = 0" "failed cnt = 0" "skipped cnt = 0" "dur = 0"
    using "1.prems" by (simp_all add: fresh_node_Node zero_counts_def)
  have kids: "list_all (\<lambda>kc. aggregated (snd kc)) ch'"
    using parts "1.IH" "1.prems" by (auto simp: list_all_iff)
  have classes: "list_all (\<lambda>kc. class_aggregated (snd kc)) cl'"
    using parts by (simp add: list_all_iff aggregate_class_aggregated)
  show ?case
    unfolding res using parts zero kids classes by simp
qed

lemma ensureClass_fresh:
  "pkg_all_nodes fresh_node node \<Longrightarrow> pkg_all_nodes fresh_node (ensureClass c f on_class node)"
  by (cases node) (simp add: ensureClass_def fresh_node_Node)

lemma ensurePackage_fresh:
  assumes at_end: "\<And>node. pkg_all_nodes fresh_node node \<Longrightarrow> pkg_all_nodes fresh_node (at_end node)"
  shows "pkg_all_nodes fresh_node cur \<Longrightarrow>
         pkg_all_nodes fresh_node (ensurePackage path full at_end cur)"
proof (induction path arbitrary: full cur)
  case Nil
  then show ?case by (simp add: at_end)
next
  case (Cons part rest)
  obtain n fn ch cl cnt dur where cur: "cur = TestPackageNode n fn ch cl cnt dur"
    by (cases cur)
  define full' where "full' = (if full \<noteq> [] then full @ ''.'' @ part else part)"
  define children where
    "children = (if has_key part ch then ch else ch @ [(part, new_TestPackageNode part full')])"
  have "list_all (\<lambda>kc. pkg_all_nodes fresh_node (snd kc)) children"
    using Cons.prems
    by (simp add: cur children_def new_TestPackageNode_def fresh_node_Node)
  then have "list_all (\<lambda>kc. pkg_all_nodes fresh_node (snd kc))
               (modify_key part (ensurePackage rest full' at_end) children)"
    by (rule list_all_modify_key) (rule Cons.IH)
  moreover have "fresh_node (TestPackageNode n fn ch' cl cnt dur)" for ch'
    using Cons.prems by (simp add: cur fresh_node_Node)
  moreover have "ensurePackage (part # rest) full at_end cur =
      TestPackageNode n fn (modify_key part (ensurePackage rest full' at_end) children) cl cnt dur"
    by (simp add: cur Let_def full'_def children_def)
  ultimately show ?case by simp
qed

lemma add_case_fresh:
  "pkg_all_nodes fresh_node rt \<Longrightarrow> pkg_all_nodes fresh_node (add_case s rt tc)"
  by (auto simp: add_case_def split: prod.splits intro!: ensurePackage_fresh ensureClass_fresh)

lemma add_suite_fresh:
  "pkg_all_nodes fresh_node rt \<Longrightarrow> pkg_all_nodes fresh_node (add_suite rt s)"
  unfolding add_suite_def by (rule foldl_invariant) (simp_all add: add_case_fresh)

lemma add_file_fresh:
  "pkg_all_nodes fresh_node rt \<Longrightarrow> pkg_all_nodes fresh_node (add_file rt f)"
  unfolding add_file_def
  by (cases f) (auto intro: foldl_invariant [where P = "pkg_all_nodes fresh_node"] add_suite_fresh)

lemma tests_root_fresh: "pkg_all_nodes fresh_node tests_root"
  by (simp add: tests_root_def fresh_node_Node)

lemma buildTestsTree_aggregated: "buildTestsTree dir = Some t \<Longrightarrow> aggregated t"
proof -
  assume built: "buildTestsTree dir = Some t"
  then obtain files where t: "t = aggregate (foldl add_file tests_root files)"
    by (auto simp: buildTestsTree_def split: option.splits)
  have "pkg_all_nodes fresh_node (foldl add_file tests_root files)"
    by (rule foldl_invariant) (simp_all add: tests_root_fresh add_file_fresh)
  then show ?thesis unfolding t by (rule aggregate_fresh)
qed

section \<open>Aggregation after a build\<close>

text \<open>
  Claim C1. In the tree \<^verbatim>\<open>buildTestsTree\<close> returns, every node's passed, failed and
  skipped counts and its duration are the sums over its own classes plus the sums
  over its children (and every class holds the counts and the duration of its own
  cases); in the tree \<^verbatim>\<open>buildCoverageTreeFromJaCoCo\<close> returns, every node's covered and
  missed lines and functions are the sums over its own source files plus the sums
  over its children.
\<close>

theorem build_aggregates_every_node:
  "(buildTestsTree dir = Some t \<longrightarrow> aggregated t) \<and>
   (buildCoverageTreeFromJaCoCo localeCompare report = Some r \<longrightarrow> cov_aggregated r)"
proof
  show "buildTestsTree dir = Some t \<longrightarrow> aggregated t"
    using buildTestsTree_aggregated by blast
next
  show "buildCoverageTreeFromJaCoCo localeCompare report = Some r \<longrightarrow> cov_aggregated r"
    by (auto simp: buildCoverageTreeFromJaCoCo_def aggregateCoverage_aggregated
        split: option.splits if_splits)
qed

theorem build_aggregates_every_node_witness:
  "(\<exists>t. buildTestsTree (Some [Some report_one_passed]) = Some t \<and> aggregated t \<and>
        passed (pkg_counts t) = 1) \<and>
   buildCoverageTreeFromJaCoCo code_unit_compare (Some [pkg_b, pkg_a]) = Some tree_a_b \<and>
   cov_aggregated tree_a_b \<and> cov_linesCovered tree_a_b = Some 13"
proof -
  obtain t where t: "buildTestsTree (Some [Some report_one_passed]) = Some t"
    and p: "passed (pkg_counts t) = 1"
    using build_one_passed by simp
  have "aggregated t \<and> cov_aggregated tree_a_b"
    using build_aggregates_every_node
      [of "Some [Some report_one_passed]" t code_unit_compare "Some [pkg_b, pkg_a]" tree_a_b]
      t build_a_b by blast
  moreover have "cov_linesCovered tree_a_b = Some 13"
    by (simp add: tree_a_b_def)
  ultimately show ?thesis using t p build_a_b by blast
qed

section \<open>Order of the children in the coverage tree\<close>

text \<open>
  Claim C8 as stated fails: \<^verbatim>\<open>aggregateCoverage\<close> sorts the children with
  \<^verbatim>\<open>localeCompare\<close>, which puts \<open>a\<close> before \<open>B\<close>, while the case-sensitive comparison of
  the character codes puts \<open>B\<close> before \<open>a\<close>. The report with the packages \<open>B\<close> and \<open>a\<close>
  gives a root whose children are \<open>a\<close>, \<open>B\<close> in that order.
\<close>

theorem build_children_not_code_unit_sorted:
  "buildCoverageTreeFromJaCoCo locale_compare (Some [pkg_upper_B, pkg_a]) = Some tree_a_upper_B \<and>
   map fst (cov_children tree_a_upper_B) = [''a'', ''B''] \<and>
   code_unit_compare ''a'' ''B'' = 1 \<and>
   \<not> children_sorted code_unit_compare tree_a_upper_B \<and>
   \<not> cov_all_nodes (children_sorted code_unit_compare) tree_a_upper_B"
proof -
  have names: "map fst (cov_children tree_a_upper_B) = [''a'', ''B'']"
    by (simp add: tree_a_upper_B_def)
  have cmp: "code_unit_compare ''a'' ''B'' = 1"
    by (simp add: code_unit_compare_def)
  have here: "\<not> children_sorted code_unit_compare tree_a_upper_B"
    by (simp add: children_sorted_def tree_a_upper_B_def cmp)
  then have "\<not> cov_all_nodes (children_sorted code_unit_compare) tree_a_upper_B"
    by (simp add: tree_a_upper_B_def)
  then show ?thesis using build_a_upper_B names cmp here by blast
qed

text \<open>
  Claim C8, amended. In the tree \<^verbatim>\<open>buildCoverageTreeFromJaCoCo\<close> returns, the children of
  every node are in ascending order of their names under \<^verbatim>\<open>localeCompare\<close>, the
  comparison \<^verbatim>\<open>aggregateCoverage\<close> sorts them with, for every input: under the locale
  collation \<open>locale_compare\<close> of the names, and under any other consistent comparison
  put in its place.
\<close>

theorem build_children_sorted:
  "(buildCoverageTreeFromJaCoCo locale_compare report = Some r \<longrightarrow>
      cov_all_nodes (children_sorted locale_compare) r) \<and>
   (consistent_cmp localeCompare \<longrightarrow>
    buildCoverageTreeFromJaCoCo localeCompare report' = Some r' \<longrightarrow>
      cov_all_nodes (children_sorted localeCompare) r')"
proof -
  have "cov_all_nodes (children_sorted cmp) t"
    if "consistent_cmp cmp" and "buildCoverageTreeFromJaCoCo cmp rep = Some t"
    for cmp rep t
    using that
    by (auto simp: buildCoverageTreeFromJaCoCo_def aggregateCoverage_sorted
        split: option.splits if_splits)
  then show ?thesis using consistent_locale_compare by blast
qed

theorem build_children_sorted_witness:
  "buildCoverageTreeFromJaCoCo locale_compare (Some [pkg_upper_B, pkg_a]) = Some tree_a_upper_B \<and>
   cov_all_nodes (children_sorted locale_compare) tree_a_upper_B \<and>
   map fst (cov_children tree_a_upper_B) = [''a'', ''B''] \<and>
   locale_compare ''a'' ''B'' = - 1 \<and>
   consistent_cmp code_unit_compare \<and>
   buildCoverageTreeFromJaCoCo code_unit_compare (Some [pkg_b, pkg_a]) = Some tree_a_b \<and>
   cov_all_nodes (children_sorted code_unit_compare) tree_a_b \<and>
   map fst (cov_children tree_a_b) = [''a'', ''b'']"
proof -
  note inst = build_children_sorted [of "Some [pkg_upper_B, pkg_a]" tree_a_upper_B
      code_unit_compare "Some [pkg_b, pkg_a]" tree_a_b]
  have "cov_all_nodes (children_sorted locale_compare) tree_a_upper_B"
    using inst build_a_upper_B by blast
  moreover have "cov_all_nodes (children_sorted code_unit_compare) tree_a_b"
    using inst consistent_code_unit_compare build_a_b by blast
  moreover have "map fst (cov_children tree_a_upper_B) = [''a'', ''B'']"
    by (simp add: tree_a_upper_B_def)
  moreover have "map fst (cov_children tree_a_b) = [''a'', ''b'']"
    by (simp add: tree_a_b_def)
  ultimately show ?thesis
    using consistent_code_unit_compare build_a_b build_a_upper_B locale_compare_a_B(1) by blast
qed

section \<open>Order of the uncovered lines\<close>

lemma leaves_sorted_files:
  "leaves_sorted = (\<lambda>n. list_all (\<lambda>sf. lines_ascending (sf_uncoveredLines sf)) (cov_sourcefile n))"
  by (rule ext) (simp add: leaves_sorted_def)

text \<open>A list that holds a \<^verbatim>\<open>NaN\<close> is not in ascending order, in whatever order it is.\<close>

lemma lines_ascending_numeric: "lines_ascending xs \<Longrightarrow> None \<notin> set xs"
  by (auto simp: lines_ascending_def list_all_iff)

text \<open>
  Claim C10 as stated fails: the line number of an entry has no default, so an
  uncovered line entry without a numeric \<^verbatim>\<open>nr\<close> puts \<^verbatim>\<open>NaN\<close> into the list, every
  comparison with it counts as 0 in the sort, and the list stays out of order. The
  entries 3, (no number), 1 give the leaf the uncovered lines 3, \<^verbatim>\<open>NaN\<close>, 1.
\<close>

theorem build_unnumbered_line_unsorted:
  "buildCoverageTreeFromJaCoCo code_unit_compare (Some [pkg_unnumbered]) = Some tree_unnumbered \<and>
   concat (map (\<lambda>kc. map sf_uncoveredLines (cov_sourcefile (snd kc))) (cov_children tree_unnumbered))
     = [[Some 3, None, Some 1]] \<and>
   \<not> sorted_wrt nr_le [Some 3, None, Some 1] \<and>
   \<not> cov_all_nodes leaves_sorted tree_unnumbered"
proof -
  have "concat (map (\<lambda>kc. map sf_uncoveredLines (cov_sourcefile (snd kc)))
          (cov_children tree_unnumbered)) = [[Some 3, None, Some 1]]"
    by (simp add: tree_unnumbered_def)
  moreover have "\<not> sorted_wrt nr_le [Some 3, None, Some 1]"
    by (simp add: nr_le_def)
  moreover have "\<not> cov_all_nodes leaves_sorted tree_unnumbered"
    by (simp add: tree_unnumbered_def leaves_sorted_def lines_ascending_def)
  ultimately show ?thesis using build_unnumbered by blast
qed

text \<open>
  Claim C10, amended. When every line entry of the report that counts as uncovered has
  a numeric \<^verbatim>\<open>nr\<close>, every source file leaf of every node of the tree
  \<^verbatim>\<open>buildCoverageTreeFromJaCoCo\<close> returns has its uncovered lines in ascending numeric
  order (all of them numbers), whatever the order of the line entries in the report:
  the input \<^verbatim>\<open>compressLines\<close> is later given is sorted.
\<close>

theorem build_uncovered_lines_sorted:
  "list_all numbered_lines pkgs \<Longrightarrow>
   buildCoverageTreeFromJaCoCo localeCompare (Some pkgs) = Some r \<Longrightarrow>
   cov_all_nodes leaves_sorted r"
proof -
  assume numbered: "list_all numbered_lines pkgs"
  assume built: "buildCoverageTreeFromJaCoCo localeCompare (Some pkgs) = Some r"
  then have r: "r = aggregateCoverage localeCompare
      (foldl (add_package localeCompare)
         (PackageNode ''All files'' [] [] [] None None None None) pkgs)"
    by (auto simp: buildCoverageTreeFromJaCoCo_def split: if_splits)
  let ?Q = "list_all (\<lambda>sf :: SourceFile. lines_ascending (sf_uncoveredLines sf))"
  have "cov_all_nodes (\<lambda>n. ?Q (cov_sourcefile n))
          (foldl (add_package localeCompare)
             (PackageNode ''All files'' [] [] [] None None None None) pkgs)"
  proof (rule foldl_add_package_all_files [where Q = ?Q])
    show "?Q []" by simp
  next
    fix pkg sfs
    show "?Q (js_sort (\<lambda>a b. localeCompare (sf_name a) (sf_name b))
                     (sfs @ package_leaves pkg))"
      if "pkg \<in> set pkgs" and sfs: "?Q sfs"
    proof -
      have "numbered_lines pkg" using that(1) numbered by (simp add: list_all_iff)
      then have "?Q (package_leaves pkg)" by (rule package_leaves_sorted)
      then show ?thesis using sfs by (simp add: list_all_js_sort)
    qed
  next
    show "cov_all_nodes (\<lambda>n. ?Q (cov_sourcefile n))
            (PackageNode ''All files'' [] [] [] None None None None)"
      by simp
  qed
  then have "cov_all_nodes (\<lambda>n. ?Q (cov_sourcefile n)) r"
    unfolding r by (rule aggregateCoverage_all_files)
  then show ?thesis by (simp add: leaves_sorted_files)
qed

theorem build_uncovered_lines_sorted_witness:
  "list_all numbered_lines [pkg_b, pkg_a] \<and>
   buildCoverageTreeFromJaCoCo code_unit_compare (Some [pkg_b, pkg_a]) = Some tree_a_b \<and>
   cov_all_nodes leaves_sorted tree_a_b \<and>
   map l_nr (concat (map jsf_line (jp_sourcefile pkg_b))) = [Some 15, Some 10, Some 12, Some 11] \<and>
   concat (map (\<lambda>kc. map sf_uncoveredLines (cov_sourcefile (snd kc))) (cov_children tree_a_b))
     = [[], [Some 10, Some 11, Some 15]]"
proof -
  have n: "list_all numbered_lines [pkg_b, pkg_a]"
    by (simp add: numbered_lines_def pkg_a_def pkg_b_def line_uncovered_def nullish_def)
  have "cov_all_nodes leaves_sorted tree_a_b"
    using build_uncovered_lines_sorted [OF n build_a_b] .
  moreover have "map l_nr (concat (map jsf_line (jp_sourcefile pkg_b)))
                   = [Some 15, Some 10, Some 12, Some 11]"
    by (simp add: pkg_b_def)
  moreover have "concat (map (\<lambda>kc. map sf_uncoveredLines (cov_sourcefile (snd kc)))
                   (cov_children tree_a_b)) = [[], [Some 10, Some 11, Some 15]]"
    by (simp add: tree_a_b_def)
  ultimately show ?thesis using n build_a_b by blast
qed

section \<open>A build without leaves\<close>

lemma foldl_add_suite_no_cases:
  "list_all (\<lambda>s. normalizeCases s = []) suites \<Longrightarrow> foldl add_suite rt suites = rt"
  by (induction suites arbitrary: rt) (simp_all add: add_suite_def)

lemma add_file_no_cases: "no_cases f \<Longrightarrow> add_file rt f = rt"
  by (cases f) (simp_all add: add_file_def no_cases_def foldl_add_suite_no_cases)

lemma foldl_add_file_no_cases: "list_all no_cases files \<Longrightarrow> foldl add_file rt files = rt"
  by (induction files arbitrary: rt) (simp_all add: add_file_no_cases)

lemma aggregate_tests_root: "aggregate tests_root = tests_root"
  by (simp add: tests_root_def)

lemma sum_list_all_zero:
  fixes f :: "'a \<Rightarrow> int"
  shows "(\<And>x. x \<in> set xs \<Longrightarrow> f x = 0) \<Longrightarrow> sum_list (map f xs) = 0"
  by (induction xs) simp_all

lemma cov_zero_Node:
  "cov_zero (PackageNode n fn sfs ch lc lm fc fm) \<longleftrightarrow>
     lc = Some 0 \<and> lm = Some 0 \<and> fc = Some 0 \<and> fm = Some 0"
  by (simp add: cov_zero_def)

text \<open>A tree without any source file aggregates to zero totals at every node.\<close>

lemma aggregateCoverage_zero:
  "cov_all_nodes (\<lambda>n. cov_sourcefile n = []) node \<Longrightarrow>
   cov_all_nodes cov_zero (aggregateCoverage cmp node)"
proof (induction cmp node rule: aggregateCoverage.induct)
  case (1 cmp n fn sfs ch lc0 lm0 fc0 fm0)
  have kids: "cov_all_nodes cov_zero (aggregateCoverage cmp (snd kc))" if "kc \<in> set ch" for kc
    using that "1.IH" [OF that] "1.prems" by (auto simp: list_all_iff)
  then have z: "cov_zero (aggregateCoverage cmp (snd kc))" if "kc \<in> set ch" for kc
    using that cov_all_nodes_node by blast
  have sums:
    "sum_list (map (\<lambda>kc. nullish (cov_linesCovered (aggregateCoverage cmp (snd kc))) 0) ch) = 0"
    "sum_list (map (\<lambda>kc. nullish (cov_linesMissed (aggregateCoverage cmp (snd kc))) 0) ch) = 0"
    "sum_list (map (\<lambda>kc. nullish (cov_funcsCovered (aggregateCoverage cmp (snd kc))) 0) ch) = 0"
    "sum_list (map (\<lambda>kc. nullish (cov_funcsMissed (aggregateCoverage cmp (snd kc))) 0) ch) = 0"
    using z by (simp_all add: sum_list_all_zero cov_zero_def nullish_def)
  have "sfs = []" using "1.prems" by simp
  then show ?case
    using kids sums
    by (auto simp: Let_def foldl_plus_sum_list cov_zero_Node list_all_iff set_js_sort
        comp_def)
qed

lemma package_leaves_none: "no_leaves pkg \<Longrightarrow> package_leaves pkg = []"
  by (simp add: no_leaves_def package_leaves_def group_classes_def)

text \<open>
  Claim C6 as stated fails for the coverage tree: a report without any package gives
  \<^verbatim>\<open>null\<close>, not a root node.
\<close>

theorem build_coverage_empty_is_null:
  "buildCoverageTreeFromJaCoCo code_unit_compare (Some []) = None"
  by (simp add: buildCoverageTreeFromJaCoCo_def)

text \<open>
  Claim C6, amended. \<^verbatim>\<open>buildTestsTree\<close> over a directory whose report files bring no
  test case (a file that cannot be decoded is skipped on its own) returns the root
  node with zero counts, zero duration and nothing below it.
  \<^verbatim>\<open>buildCoverageTreeFromJaCoCo\<close> returns \<^verbatim>\<open>null\<close> for a report without packages; for a
  report with at least one package and no source file or class in any of them it
  returns a root, and the four totals of every node of that tree are zero.
\<close>

theorem build_without_leaves:
  "(list_all no_cases files \<longrightarrow>
      buildTestsTree (Some files) = Some tests_root \<and>
      pkg_counts tests_root = \<lparr> passed = 0, failed = 0, skipped = 0 \<rparr> \<and>
      pkg_durationMs tests_root = 0 \<and>
      pkg_children tests_root = [] \<and> pkg_classes tests_root = []) \<and>
   buildCoverageTreeFromJaCoCo localeCompare (Some []) = None \<and>
   (pkgs \<noteq> [] \<longrightarrow> list_all no_leaves pkgs \<longrightarrow>
      (\<exists>r. buildCoverageTreeFromJaCoCo localeCompare (Some pkgs) = Some r \<and>
           cov_all_nodes cov_zero r))"
proof -
  have tests: "buildTestsTree (Some files) = Some tests_root" if "list_all no_cases files"
    using that by (simp add: buildTestsTree_def foldl_add_file_no_cases aggregate_tests_root)
  have root: "pkg_counts tests_root = \<lparr> passed = 0, failed = 0, skipped = 0 \<rparr>"
    "pkg_durationMs tests_root = 0" "pkg_children tests_root = []" "pkg_classes tests_root = []"
    by (simp_all add: tests_root_def zero_counts_def)
  have null: "buildCoverageTreeFromJaCoCo localeCompare (Some []) = None"
    by (simp add: buildCoverageTreeFromJaCoCo_def)
  have cov: "\<exists>r. buildCoverageTreeFromJaCoCo localeCompare (Some pkgs) = Some r \<and>
                 cov_all_nodes cov_zero r"
    if ne: "pkgs \<noteq> []" and none: "list_all no_leaves pkgs"
  proof -
    let ?Q = "\<lambda>sfs :: SourceFile list. sfs = []"
    let ?t = "foldl (add_package localeCompare)
                (PackageNode ''All files'' [] [] [] None None None None) pkgs"
    have "cov_all_nodes (\<lambda>n. ?Q (cov_sourcefile n)) ?t"
    proof (rule foldl_add_package_all_files [where Q = ?Q])
      show "?Q []" by simp
    next
      fix pkg sfs
      assume "pkg \<in> set pkgs" and "?Q sfs"
      then show "?Q (js_sort (\<lambda>a b. localeCompare (sf_name a) (sf_name b))
                       (sfs @ package_leaves pkg))"
        using none by (simp add: list_all_iff package_leaves_none js_sort_def)
    next
      show "cov_all_nodes (\<lambda>n. ?Q (cov_sourcefile n))
              (PackageNode ''All files'' [] [] [] None None None None)"
        by simp
    qed
    then have "cov_all_nodes cov_zero (aggregateCoverage localeCompare ?t)"
      by (rule aggregateCoverage_zero)
    moreover have "buildCoverageTreeFromJaCoCo localeCompare (Some pkgs)
                     = Some (aggregateCoverage localeCompare ?t)"
      using ne by (simp add: buildCoverageTreeFromJaCoCo_def)
    ultimately show ?thesis by blast
  qed
  from tests root null cov show ?thesis by blast
qed

theorem build_without_leaves_witness:
  "list_all no_cases [None, Some \<lparr> d_testsuite = None, d_testsuites_testsuite = Absent \<rparr>] \<and>
   buildTestsTree (Some [None, Some \<lparr> d_testsuite = None, d_testsuites_testsuite = Absent \<rparr>])
     = Some tests_root \<and>
   [pkg_empty] \<noteq> [] \<and> list_all no_leaves [pkg_empty] \<and>
   (\<exists>r. buildCoverageTreeFromJaCoCo code_unit_compare (Some [pkg_empty]) = Some r \<and>
        cov_all_nodes cov_zero r)"
proof -
  have a: "list_all no_cases [None, Some \<lparr> d_testsuite = None, d_testsuites_testsuite = Absent \<rparr>]"
    by (simp add: no_cases_def normalizeSuites_def)
  have b: "list_all no_leaves [pkg_empty]"
    by (simp add: no_leaves_def pkg_empty_def)
  note inst = build_without_leaves
    [of "[None, Some \<lparr> d_testsuite = None, d_testsuites_testsuite = Absent \<rparr>]"
        code_unit_compare "[pkg_empty]"]
  have "buildTestsTree (Some [None, Some \<lparr> d_testsuite = None, d_testsuites_testsuite = Absent \<rparr>])
          = Some tests_root"
    using inst a by blast
  moreover have "\<exists>r. buildCoverageTreeFromJaCoCo code_unit_compare (Some [pkg_empty]) = Some r \<and>
                     cov_all_nodes cov_zero r"
    using inst b by blast
  ultimately show ?thesis using a b by blast
qed

section \<open>Rendering with the failures-only filter\<close>































section \<open>Percentages\<close>

lemma threshold_pct_pctInt: "threshold_pct (Some covered) (Some missed) = pctInt covered missed"
  by (simp add: threshold_pct_def pctInt_def nullish_def Let_def)

text \<open>
  For a total of at most \<open>2\<^sup>4\<^sup>3\<close> the rounding errors of the two double operations
  cannot move the value across a rounding boundary, unless the exact percentage lies
  on the boundary itself.
\<close>

lemma pctInt_cases:
  assumes c: "0 \<le> c" and m: "0 \<le> m" and pos: "c + m \<noteq> 0" and small: "c + m \<le> 2 ^ 43"
  shows "(2 * (100 * c mod (c + m)) \<noteq> c + m \<longrightarrow>
            pctInt c m = round (of_int c / of_int (c + m) * 100 :: rat)) \<and>
         (pctInt c m = round (of_int c / of_int (c + m) * 100 :: rat) \<or>
          pctInt c m = round (of_int c / of_int (c + m) * 100 :: rat) - 1) \<and>
         pctInt c m \<le> 100"
proof -
  define t where "t = c + m"
  define x :: rat where "x = of_int c / of_int t * 100"
  define y where "y = dval (double_times (nearest_double c t) 100)"
  define Q where "Q = 100 * c div t"
  define r where "r = 100 * c mod t"
  define d :: rat where "d = 300 / 2 ^ 53"
  define h :: rat where "h = 1 / (2 * of_int t)"
  have t: "0 < t" using c m pos by (simp add: t_def)
  have tr: "(0 :: rat) < of_int t" using t by simp
  have p: "pctInt c m = \<lfloor>y + 1 / 2\<rfloor>"
    using pos by (simp add: pctInt_def Let_def js_round_floor y_def t_def)
  have err: "\<bar>y - x\<bar> \<le> d"
    unfolding y_def x_def d_def t_def using c m pos by (rule pct_double_error)
  have "(of_int t :: rat) \<le> 2 ^ 43"
    using small unfolding t_def by (metis of_int_le_iff of_int_numeral of_int_power)
  then have "(2 * of_int t :: rat) \<le> 2 ^ 44" by simp
  then have "(1 :: rat) / 2 ^ 44 \<le> h"
    unfolding h_def using tr by (intro divide_left_mono) simp_all
  moreover have "d < 1 / 2 ^ 44" by (simp add: d_def)
  ultimately have dh: "d < h" by linarith
  have d0: "0 \<le> d" "d < 1 / 2" by (simp_all add: d_def)
  have r: "0 \<le> r" "r < t" using t by (simp_all add: r_def)
  have "100 * c = Q * t + r" by (simp add: Q_def r_def)
  then have "(of_int (100 * c) :: rat) = of_int (Q * t + r)" by (simp only:)
  then have x: "x = of_int Q + of_int r / of_int t"
    using tr by (simp add: x_def field_simps)
  have rh: "of_int r / of_int t = (2 * of_int r) * h"
    using tr by (simp add: h_def)
  have th: "(of_int t :: rat) * h = 1 / 2"
    using tr by (simp add: h_def)
  have x100: "x \<le> 100"
  proof -
    have "(of_int c :: rat) \<le> of_int t" using m by (simp add: t_def)
    then have "(of_int c / of_int t :: rat) \<le> 1" using tr by simp
    then have "(of_int c / of_int t :: rat) * 100 \<le> 1 * 100"
      by (intro mult_right_mono) simp_all
    then show ?thesis unfolding x_def by (simp only: mult_1)
  qed
  have le100: "\<lfloor>y + 1 / 2\<rfloor> \<le> 100"
  proof -
    have "y + 1 / 2 < 101" using err x100 d0 by linarith
    then have "\<lfloor>y + 1 / 2\<rfloor> < 101" by (simp add: floor_less_iff)
    then show ?thesis by simp
  qed
  consider (below) "2 * r < t" | (above) "t < 2 * r" | (tie) "2 * r = t" by linarith
  then have "(2 * r \<noteq> t \<longrightarrow> \<lfloor>y + 1 / 2\<rfloor> = round x) \<and>
             (\<lfloor>y + 1 / 2\<rfloor> = round x \<or> \<lfloor>y + 1 / 2\<rfloor> = round x - 1)"
  proof cases
    case below
    then have "2 * r + 1 \<le> t" by simp
    then have "(of_int (2 * r + 1) :: rat) \<le> of_int t" by (simp only: of_int_le_iff)
    then have "(2 * of_int r + 1) * h \<le> of_int t * h"
      using tr by (intro mult_right_mono) (simp_all add: h_def)
    moreover have "(2 * of_int r + 1) * h = of_int r / of_int t + h"
      by (simp only: distrib_right rh mult_1)
    ultimately have up: "of_int r / of_int t + h \<le> 1 / 2"
      by (simp only: th)
    have lo: "(0 :: rat) \<le> of_int r / of_int t" using r tr by simp
    have "\<lfloor>x + 1 / 2\<rfloor> = Q"
      by (rule floor_unique) (use x up lo dh d0 in linarith)+
    then have rx: "round x = Q" by (simp add: round_def)
    have "\<lfloor>y + 1 / 2\<rfloor> = Q"
      by (rule floor_unique) (use x up lo dh d0 err in linarith)+
    with rx show ?thesis by simp
  next
    case above
    then have "t + 1 \<le> 2 * r" by simp
    then have "(of_int (t + 1) :: rat) \<le> of_int (2 * r)" by (simp only: of_int_le_iff)
    then have "(of_int t + 1) * h \<le> (2 * of_int r) * h"
      using tr by (intro mult_right_mono) (simp_all add: h_def)
    moreover have "(of_int t + 1) * h = 1 / 2 + h"
      by (simp only: distrib_right th mult_1)
    ultimately have lo: "1 / 2 + h \<le> of_int r / of_int t"
      by (simp only: rh)
    have up: "(of_int r / of_int t :: rat) < 1" using r tr by simp
    have "\<lfloor>x + 1 / 2\<rfloor> = Q + 1"
      by (rule floor_unique) (use x up lo dh d0 in \<open>simp; linarith\<close>)+
    then have rx: "round x = Q + 1" by (simp add: round_def)
    have "\<lfloor>y + 1 / 2\<rfloor> = Q + 1"
      by (rule floor_unique) (use x up lo dh d0 err in \<open>simp; linarith\<close>)+
    with rx show ?thesis by simp
  next
    case tie
    then have "(of_int t :: rat) = of_int (2 * r)" by (simp only:)
    then have half: "(of_int r / of_int t :: rat) = 1 / 2"
      using tr by (simp add: field_simps)
    have "\<lfloor>x + 1 / 2\<rfloor> = Q + 1"
      by (rule floor_unique) (simp_all add: x half)
    then have rx: "round x = Q + 1" by (simp add: round_def)
    have lo: "of_int Q \<le> y + 1 / 2" and up: "y + 1 / 2 < of_int Q + 2"
      using x half err d0 by linarith+
    have "\<lfloor>y + 1 / 2\<rfloor> = Q \<or> \<lfloor>y + 1 / 2\<rfloor> = Q + 1"
    proof (cases "y + 1 / 2 < of_int Q + 1")
      case True
      then have "\<lfloor>y + 1 / 2\<rfloor> = Q" using lo by (intro floor_unique) simp_all
      then show ?thesis by simp
    next
      case False
      then have "\<lfloor>y + 1 / 2\<rfloor> = Q + 1" using up by (intro floor_unique) simp_all
      then show ?thesis by simp
    qed
    with rx tie show ?thesis by auto
  qed
  then show ?thesis
    using le100 by (simp add: p x_def t_def r_def)
qed

text \<open>
  Claim C5 as stated fails: for 23 covered and 17 missed the exact percentage is 57.5,
  which rounds to 58, and \<^verbatim>\<open>pctInt\<close> gives 57. The quotient 23/40 is not a double; the
  nearest double times 100 is the double just below 57.5.
\<close>

theorem pctInt_23_17:
  "pctInt 23 17 = 57 \<and> round (of_int 23 / of_int (23 + 17) * 100 :: rat) = 58"
proof
  show "pctInt 23 17 = 57"
    by (simp add: pctInt_def double_eval)
  show "round (of_int 23 / of_int (23 + 17) * 100 :: rat) = 58"
    by (simp add: round_def)
qed

text \<open>
  Claim C5, amended. For non-negative counts with a total of at most \<open>2\<^sup>4\<^sup>3\<close> the
  percentage is an integer from 0 to 100; it is 0 when the total is 0; it is
  \<open>round(covered / (covered + missed) * 100)\<close> whenever the exact percentage is not
  halfway between two integers, and on such a tie it is that value or one less. The
  inline computation of \<^verbatim>\<open>cmdCoverage\<close> is the same function. 3 covered and 1 missed
  give 75, 1 covered and 2 missed give 33, and a zero total gives 0.
\<close>

theorem pctInt_rounds:
  "0 \<le> covered \<Longrightarrow> 0 \<le> missed \<Longrightarrow> covered + missed \<le> 2 ^ 43 \<Longrightarrow>
   (covered + missed = 0 \<longrightarrow> pctInt covered missed = 0) \<and>
   0 \<le> pctInt covered missed \<and> pctInt covered missed \<le> 100 \<and>
   (covered + missed \<noteq> 0 \<longrightarrow> 2 * (100 * covered mod (covered + missed)) \<noteq> covered + missed \<longrightarrow>
      pctInt covered missed = round (of_int covered / of_int (covered + missed) * 100 :: rat)) \<and>
   (covered + missed \<noteq> 0 \<longrightarrow>
      pctInt covered missed = round (of_int covered / of_int (covered + missed) * 100 :: rat) \<or>
      pctInt covered missed = round (of_int covered / of_int (covered + missed) * 100 :: rat) - 1) \<and>
   threshold_pct (Some covered) (Some missed) = pctInt covered missed \<and>
   pctInt 3 1 = 75 \<and> pctInt 1 2 = 33 \<and> pctInt 0 0 = 0"
proof -
  assume c: "0 \<le> covered" and m: "0 \<le> missed" and small: "covered + missed \<le> 2 ^ 43"
  have zero: "covered + missed = 0 \<longrightarrow> pctInt covered missed = 0"
    by (simp add: pctInt_def)
  have nonneg: "0 \<le> pctInt covered missed"
  proof (cases "covered + missed = 0")
    case True
    then show ?thesis by (simp add: pctInt_def)
  next
    case False
    then have "0 < covered + missed" using c m by simp
    then have "0 \<le> fst (nearest_double covered (covered + missed))"
      using c by (intro nearest_double_nonneg)
    then have "0 \<le> js_round (double_times (nearest_double covered (covered + missed)) 100)"
      by (intro js_round_nonneg double_times_nonneg) simp_all
    then show ?thesis using False by (simp add: pctInt_def Let_def)
  qed
  have le: "pctInt covered missed \<le> 100"
  proof (cases "covered + missed = 0")
    case True
    then show ?thesis by (simp add: pctInt_def)
  next
    case False
    then show ?thesis using pctInt_cases [OF c m False small] by blast
  qed
  have exact: "covered + missed \<noteq> 0 \<longrightarrow>
      2 * (100 * covered mod (covered + missed)) \<noteq> covered + missed \<longrightarrow>
      pctInt covered missed = round (of_int covered / of_int (covered + missed) * 100 :: rat)"
    using pctInt_cases [OF c m _ small] by blast
  have near: "covered + missed \<noteq> 0 \<longrightarrow>
      pctInt covered missed = round (of_int covered / of_int (covered + missed) * 100 :: rat) \<or>
      pctInt covered missed = round (of_int covered / of_int (covered + missed) * 100 :: rat) - 1"
    using pctInt_cases [OF c m _ small] by blast
  have ex: "pctInt 3 1 = 75" "pctInt 1 2 = 33" "pctInt 0 0 = 0"
    by (simp_all add: pctInt_def double_eval)
  from zero nonneg le exact near threshold_pct_pctInt ex show ?thesis by blast
qed

theorem pctInt_rounds_witness:
  "(0 :: int) \<le> 8 \<and> (0 :: int) \<le> 2 \<and> (8 + 2 :: int) \<le> 2 ^ 43 \<and> (8 + 2 :: int) \<noteq> 0 \<and>
   2 * (100 * 8 mod (8 + 2)) \<noteq> (8 + 2 :: int) \<and>
   pctInt 8 2 = round (of_int 8 / of_int (8 + 2) * 100 :: rat) \<and>
   round (of_int 8 / of_int (8 + 2) * 100 :: rat) = 80 \<and>
   pctInt 0 0 = 0"
proof -
  have h: "(0 :: int) \<le> 8" "(0 :: int) \<le> 2" "(8 + 2 :: int) \<le> 2 ^ 43" by simp_all
  have n: "(8 + 2 :: int) \<noteq> 0" "2 * (100 * 8 mod (8 + 2)) \<noteq> (8 + 2 :: int)" by simp_all
  have "pctInt 8 2 = round (of_int 8 / of_int (8 + 2) * 100 :: rat)" and "pctInt 0 0 = 0"
    using pctInt_rounds [OF h] n by blast+
  moreover have "round (of_int 8 / of_int (8 + 2) * 100 :: rat) = 80"
    by simp
  ultimately show ?thesis using h n by blast
qed

section \<open>Running the aggregation again\<close>










end
